theory Spec2Isabelle
  imports Main "HOL-Library.List_Lexorder" "HOL-Library.Code_Target_Nat"
begin

section \<open>Python strings\<close>

text \<open>
  A Python \<open>str\<close> is a sequence of Unicode code points. It is modelled as a list of
  natural numbers, one per code point, so that \<open>len\<close> is \<open>length\<close> and the arrow of the
  prompt template (U+2192) or the result of a \<open>\uXXXX\<close> escape is one element.
  \<open>u\<close> turns an ASCII literal of the theory into such a string.
\<close>

type_synonym pystr = "nat list"

definition u :: "string \<Rightarrow> pystr" where
  "u s = map of_char s"

text \<open>\<open>str.isspace\<close> on one code point; the regular expression class \<open>\s\<close> of a
  \<open>str\<close> pattern is the same set.\<close>

definition is_space :: "nat \<Rightarrow> bool" where
  "is_space c \<longleftrightarrow>
     (9 \<le> c \<and> c \<le> 13) \<or> (28 \<le> c \<and> c \<le> 32) \<or> c = 133 \<or> c = 160 \<or> c = 5760
     \<or> (8192 \<le> c \<and> c \<le> 8202) \<or> c = 8232 \<or> c = 8233 \<or> c = 8239 \<or> c = 8287
     \<or> c = 12288"

definition lstrip :: "pystr \<Rightarrow> pystr" where
  "lstrip s = dropWhile is_space s"

definition rstrip :: "pystr \<Rightarrow> pystr" where
  "rstrip s = rev (dropWhile is_space (rev s))"

definition strip :: "pystr \<Rightarrow> pystr" where
  "strip s = rstrip (lstrip s)"

definition startswith :: "pystr \<Rightarrow> pystr \<Rightarrow> bool" where
  "startswith s p \<longleftrightarrow> take (length p) s = p"

definition endswith :: "pystr \<Rightarrow> pystr \<Rightarrow> bool" where
  "endswith s p \<longleftrightarrow> length p \<le> length s \<and> drop (length s - length p) s = p"

text \<open>\<open>s.find(c)\<close> and \<open>s.rfind(c)\<close> for a one-character needle: the index of the first
  (last) occurrence, \<open>-1\<close> when there is none.\<close>

fun find_from :: "nat \<Rightarrow> nat \<Rightarrow> pystr \<Rightarrow> int" where
  "find_from c i [] = -1"
| "find_from c i (x # xs) = (if x = c then int i else find_from c (Suc i) xs)"

definition str_find :: "pystr \<Rightarrow> nat \<Rightarrow> int" where
  "str_find s c = find_from c 0 s"

definition str_rfind :: "pystr \<Rightarrow> nat \<Rightarrow> int" where
  "str_rfind s c = (let k = find_from c 0 (rev s) in if k < 0 then -1 else int (length s) - 1 - k)"

text \<open>The slice \<open>s[i:j]\<close> for indices \<open>0 \<le> i\<close>, \<open>0 \<le> j\<close>.\<close>

definition slice :: "pystr \<Rightarrow> nat \<Rightarrow> nat \<Rightarrow> pystr" where
  "slice s i j = drop i (take j s)"

text \<open>\<open>s.replace(old, new)\<close>: every non-overlapping occurrence, from the left; an empty
  \<open>old\<close> matches before every character and at the end.\<close>

function replace_ne :: "pystr \<Rightarrow> pystr \<Rightarrow> pystr \<Rightarrow> pystr" where
  "replace_ne old new [] = []"
| "replace_ne old new (c # cs) =
     (if old \<noteq> [] \<and> startswith (c # cs) old
      then new @ replace_ne old new (drop (length old) (c # cs))
      else c # replace_ne old new cs)"
  by pat_completeness auto
termination
  by (relation "measure (\<lambda>(old, new, s). length s)") (auto simp: neq_Nil_conv)

definition str_replace :: "pystr \<Rightarrow> pystr \<Rightarrow> pystr \<Rightarrow> pystr" where
  "str_replace s old new =
     (if old = [] then new @ concat (map (\<lambda>c. c # new) s) else replace_ne old new s)"

text \<open>\<open>sep.join(xs)\<close>.\<close>

fun str_join :: "pystr \<Rightarrow> pystr list \<Rightarrow> pystr" where
  "str_join sep [] = []"
| "str_join sep [x] = x"
| "str_join sep (x # y # ys) = x @ sep @ str_join sep (y # ys)"

text \<open>Decimal rendering of an integer, as \<open>str\<close> and \<open>repr\<close> of an \<open>int\<close> give it.\<close>

function dec_nat :: "nat \<Rightarrow> pystr" where
  "dec_nat n = (if n < 10 then [48 + n] else dec_nat (n div 10) @ [48 + n mod 10])"
  by pat_completeness auto
termination
  by (relation "measure id") auto

definition dec_int :: "int \<Rightarrow> pystr" where
  "dec_int i = (if i < 0 then 45 # dec_nat (nat (- i)) else dec_nat (nat i))"

section \<open>Python values and the \<open>json\<close> module\<close>

text \<open>
  The values that \<open>json.loads\<close> and the header parser produce. A float is kept as the
  text of its literal: no claim depends on its numeric value. A \<open>dict\<close> is the list of
  its items in insertion order, with distinct keys. \<open>PDate\<close> stands for a
  \<open>datetime.date\<close> (a YAML loader produces them), carrying its \<open>isoformat()\<close>.
\<close>

datatype pyval =
    PNone
  | PBool bool
  | PInt int
  | PFloat pystr
  | PStr pystr
  | PList "pyval list"
  | PDict "(pystr \<times> pyval) list"
  | PDate pystr

text \<open>\<open>d[k] = v\<close>: a present key keeps its place, a new key goes last.\<close>

fun dict_set :: "(pystr \<times> pyval) list \<Rightarrow> pystr \<Rightarrow> pyval \<Rightarrow> (pystr \<times> pyval) list" where
  "dict_set [] k v = [(k, v)]"
| "dict_set ((k', v') # d) k v = (if k' = k then (k, v) # d else (k', v') # dict_set d k v)"

text \<open>\<open>d.get(k)\<close> is \<open>map_of d k\<close>; \<open>d.get(k, default)\<close>:\<close>

definition dict_get :: "(pystr \<times> pyval) list \<Rightarrow> pystr \<Rightarrow> pyval \<Rightarrow> pyval" where
  "dict_get d k dflt = (case map_of d k of Some v \<Rightarrow> v | None \<Rightarrow> dflt)"

subsection \<open>\<open>json.loads\<close>\<close>

text \<open>
  The decoder of CPython's \<open>json\<close> package with its default settings (strict strings,
  no hooks), as its C scanner behaves. \<open>None\<close> is \<open>json.JSONDecodeError\<close>. Not
  modelled: the interpreter's recursion limit on deeply nested input and its limit on the
  number of digits of an integer literal.
\<close>

definition is_json_ws :: "nat \<Rightarrow> bool" where
  "is_json_ws c \<longleftrightarrow> c = 32 \<or> c = 9 \<or> c = 10 \<or> c = 13"

definition skip_ws :: "pystr \<Rightarrow> pystr" where
  "skip_ws s = dropWhile is_json_ws s"

definition is_digit :: "nat \<Rightarrow> bool" where
  "is_digit c \<longleftrightarrow> 48 \<le> c \<and> c \<le> 57"

definition hex_val :: "nat \<Rightarrow> nat option" where
  "hex_val c =
     (if 48 \<le> c \<and> c \<le> 57 then Some (c - 48)
      else if 97 \<le> c \<and> c \<le> 102 then Some (c - 87)
      else if 65 \<le> c \<and> c \<le> 70 then Some (c - 55)
      else None)"

text \<open>The four hexadecimal digits of a \<open>\uXXXX\<close> escape.\<close>

definition hex4 :: "pystr \<Rightarrow> nat option" where
  "hex4 s =
     (case s of
        a # b # c # d # _ \<Rightarrow>
          (case (hex_val a, hex_val b, hex_val c, hex_val d) of
             (Some x, Some y, Some z, Some w) \<Rightarrow> Some (((x * 16 + y) * 16 + z) * 16 + w)
           | _ \<Rightarrow> None)
      | _ \<Rightarrow> None)"

definition escape_char :: "nat \<Rightarrow> nat option" where
  "escape_char e =
     (if e = 34 then Some 34 else if e = 92 then Some 92 else if e = 47 then Some 47
      else if e = 98 then Some 8 else if e = 102 then Some 12 else if e = 110 then Some 10
      else if e = 114 then Some 13 else if e = 116 then Some 9 else None)"

text \<open>\<open>scanstring\<close>: the text after an opening quote, up to the closing one. The result
  is the decoded string and the text after the closing quote.\<close>

function scanstring :: "pystr \<Rightarrow> pystr \<Rightarrow> (pystr \<times> pystr) option" where
  "scanstring acc [] = None"
| "scanstring acc (c # cs) =
     (if c = 34 then Some (acc, cs)
      else if c = 92 then
        (case cs of
           [] \<Rightarrow> None
         | e # es \<Rightarrow>
             if e = 117 then
               (case hex4 es of
                  None \<Rightarrow> None
                | Some uni \<Rightarrow>
                    if 55296 \<le> uni \<and> uni \<le> 56319 \<and> take 2 (drop 4 es) = [92, 117] then
                      (case hex4 (drop 6 es) of
                         None \<Rightarrow> None
                       | Some uni2 \<Rightarrow>
                           if 56320 \<le> uni2 \<and> uni2 \<le> 57343
                           then scanstring
                                  (acc @ [65536 + ((uni - 55296) * 1024 + (uni2 - 56320))])
                                  (drop 10 es)
                           else scanstring (acc @ [uni]) (drop 4 es))
                    else scanstring (acc @ [uni]) (drop 4 es))
             else
               (case escape_char e of
                  None \<Rightarrow> None
                | Some ch \<Rightarrow> scanstring (acc @ [ch]) es))
      else if c \<le> 31 then None
      else scanstring (acc @ [c]) cs)"
  by pat_completeness auto
termination
  by (relation "measure (\<lambda>(acc, s). length s)") auto

definition digits_val :: "pystr \<Rightarrow> int" where
  "digits_val ds = foldl (\<lambda>a d. 10 * a + (int d - 48)) 0 ds"

text \<open>A number, by the grammar \<open>-?(0|[1-9][0-9]*)(\.[0-9]+)?([eE][-+]?[0-9]+)?\<close>: an
  \<open>int\<close> without fraction and exponent, a \<open>float\<close> otherwise. The three parts are the
  longest matches of the three groups; an empty integer part is no number.\<close>

definition int_part :: "pystr \<Rightarrow> pystr" where
  "int_part s =
     (case s of
        [] \<Rightarrow> []
      | c # cs \<Rightarrow>
          if \<not> is_digit c then [] else if c = 48 then [c] else c # takeWhile is_digit cs)"

definition frac_part :: "pystr \<Rightarrow> pystr" where
  "frac_part s =
     (case s of
        d # f # r \<Rightarrow> if d = 46 \<and> is_digit f then d # f # takeWhile is_digit r else []
      | _ \<Rightarrow> [])"

definition exp_part :: "pystr \<Rightarrow> pystr" where
  "exp_part s =
     (case s of
        [] \<Rightarrow> []
      | e # r \<Rightarrow>
          if e = 101 \<or> e = 69 then
            (let sg = (if take 1 r = [45] \<or> take 1 r = [43] then take 1 r else []);
                 ds = takeWhile is_digit (drop (length sg) r)
             in if ds = [] then [] else e # sg @ ds)
          else [])"

definition match_number :: "pystr \<Rightarrow> (pyval \<times> pystr) option" where
  "match_number s =
     (let neg = (take 1 s = [45]);
          s1 = (if neg then drop 1 s else s);
          ip = int_part s1;
          r1 = drop (length ip) s1;
          fp = frac_part r1;
          r2 = drop (length fp) r1;
          ep = exp_part r2;
          r3 = drop (length ep) r2
      in if ip = [] then None
         else if fp = [] \<and> ep = []
         then Some (PInt (if neg then - digits_val ip else digits_val ip), r3)
         else Some (PFloat ((if neg then [45] else []) @ ip @ fp @ ep), r3))"

datatype 'a res = Ok 'a | Err | OutOfFuel

text \<open>
  \<open>scan_once\<close> reads one JSON value at the head of the text; \<open>parse_array\<close> and
  \<open>parse_object\<close> are the loops over the items after \<open>[\<close> and \<open>{\<close>. The first argument
  bounds the number of calls; \<open>json_loads\<close> gives enough of it
  (\<open>json_loads_fuel\<close> below), so \<open>OutOfFuel\<close> never comes out.
\<close>

fun scan_once :: "nat \<Rightarrow> pystr \<Rightarrow> (pyval \<times> pystr) res"
  and parse_array :: "nat \<Rightarrow> pystr \<Rightarrow> pyval list \<Rightarrow> (pyval \<times> pystr) res"
  and parse_object :: "nat \<Rightarrow> pystr \<Rightarrow> (pystr \<times> pyval) list \<Rightarrow> (pyval \<times> pystr) res"
where
  "scan_once 0 s = OutOfFuel"
| "scan_once (Suc n) s =
     (case s of
        [] \<Rightarrow> Err
      | c # cs \<Rightarrow>
          if c = 34 then
            (case scanstring [] cs of None \<Rightarrow> Err | Some (x, r) \<Rightarrow> Ok (PStr x, r))
          else if c = 123 then
            (case skip_ws cs of
               [] \<Rightarrow> parse_object n [] []
             | d # r \<Rightarrow> if d = 125 then Ok (PDict [], r) else parse_object n (d # r) [])
          else if c = 91 then
            (case skip_ws cs of
               [] \<Rightarrow> parse_array n [] []
             | d # r \<Rightarrow> if d = 93 then Ok (PList [], r) else parse_array n (d # r) [])
          else if startswith s (u ''null'') then Ok (PNone, drop 4 s)
          else if startswith s (u ''true'') then Ok (PBool True, drop 4 s)
          else if startswith s (u ''false'') then Ok (PBool False, drop 5 s)
          else if startswith s (u ''NaN'') then Ok (PFloat (u ''NaN''), drop 3 s)
          else if startswith s (u ''Infinity'') then Ok (PFloat (u ''Infinity''), drop 8 s)
          else if startswith s (u ''-Infinity'') then Ok (PFloat (u ''-Infinity''), drop 9 s)
          else (case match_number s of None \<Rightarrow> Err | Some vr \<Rightarrow> Ok vr))"
| "parse_array 0 s acc = OutOfFuel"
| "parse_array (Suc n) s acc =
     (case scan_once n s of
        Ok (v, r) \<Rightarrow>
          (case skip_ws r of
             [] \<Rightarrow> Err
           | d # r' \<Rightarrow>
               if d = 93 then Ok (PList (acc @ [v]), r')
               else if d = 44 then parse_array n (skip_ws r') (acc @ [v])
               else Err)
      | Err \<Rightarrow> Err
      | OutOfFuel \<Rightarrow> OutOfFuel)"
| "parse_object 0 s acc = OutOfFuel"
| "parse_object (Suc n) s acc =
     (case s of
        [] \<Rightarrow> Err
      | q # s1 \<Rightarrow>
          if q \<noteq> 34 then Err
          else
            (case scanstring [] s1 of
               None \<Rightarrow> Err
             | Some (key, r) \<Rightarrow>
                 (case skip_ws r of
                    [] \<Rightarrow> Err
                  | col # r1 \<Rightarrow>
                      if col \<noteq> 58 then Err
                      else
                        (case scan_once n (skip_ws r1) of
                           Ok (v, r2) \<Rightarrow>
                             (case skip_ws r2 of
                                [] \<Rightarrow> Err
                              | d # r3 \<Rightarrow>
                                  if d = 125 then Ok (PDict (dict_set acc key v), r3)
                                  else if d = 44
                                  then parse_object n (skip_ws r3) (dict_set acc key v)
                                  else Err)
                         | Err \<Rightarrow> Err
                         | OutOfFuel \<Rightarrow> OutOfFuel))))"

text \<open>\<open>JSONDecoder.decode\<close>: leading white space, one value, trailing white space, and
  nothing else.\<close>

definition decode :: "nat \<Rightarrow> pystr \<Rightarrow> pyval res" where
  "decode n s =
     (case scan_once n (skip_ws s) of
        Ok (v, r) \<Rightarrow> if skip_ws r = [] then Ok v else Err
      | Err \<Rightarrow> Err
      | OutOfFuel \<Rightarrow> OutOfFuel)"

definition json_loads :: "pystr \<Rightarrow> pyval option" where
  "json_loads s = (case decode (2 * length s + 1) s of Ok v \<Rightarrow> Some v | _ \<Rightarrow> None)"

subsection \<open>\<open>json.dumps\<close>, \<open>str\<close> and truth values\<close>

text \<open>
  What the interpreter does with floats and with the \<open>repr\<close> of containers is outside
  the model; the functions that need it take it from the environment.
\<close>

record pylib =
  float_repr :: "pystr \<Rightarrow> pystr"
  float_truthy :: "pystr \<Rightarrow> bool"
  container_str :: "pyval \<Rightarrow> pystr"
  today :: pystr

text \<open>\<open>float_repr\<close>: the text \<open>repr\<close> and \<open>json.dumps\<close> give for the float read from a
  literal; \<open>float_truthy\<close>: whether that float is non-zero; \<open>container_str\<close>: \<open>str\<close> of a
  list or dict; \<open>today\<close>: \<open>datetime.now().strftime('%Y-%m-%d')\<close>.\<close>

definition hexdig :: "nat \<Rightarrow> nat" where
  "hexdig n = (if n < 10 then 48 + n else 87 + n)"

text \<open>The escapes of \<open>json.dumps(..., ensure_ascii=False)\<close>.\<close>

definition escape_json_char :: "nat \<Rightarrow> pystr" where
  "escape_json_char c =
     (if c = 34 then [92, 34] else if c = 92 then [92, 92]
      else if c = 8 then [92, 98] else if c = 12 then [92, 102]
      else if c = 10 then [92, 110] else if c = 13 then [92, 114]
      else if c = 9 then [92, 116]
      else if c < 32 then [92, 117, 48, 48, hexdig (c div 16), hexdig (c mod 16)]
      else [c])"

definition encode_str :: "pystr \<Rightarrow> pystr" where
  "encode_str s = [34] @ concat (map escape_json_char s) @ [34]"

fun encode :: "pylib \<Rightarrow> pyval \<Rightarrow> pystr" where
  "encode lib PNone = u ''null''"
| "encode lib (PBool b) = (if b then u ''true'' else u ''false'')"
| "encode lib (PInt i) = dec_int i"
| "encode lib (PFloat l) = float_repr lib l"
| "encode lib (PStr s) = encode_str s"
| "encode lib (PList xs) = [91] @ str_join (u '', '') (map (encode lib) xs) @ [93]"
| "encode lib (PDict d) =
     [123] @ str_join (u '', '') (map (\<lambda>kv. encode_str (fst kv) @ u '': '' @ encode lib (snd kv)) d)
     @ [125]"
| "encode lib (PDate d) = []"

fun serializable :: "pyval \<Rightarrow> bool" where
  "serializable (PDate d) = False"
| "serializable (PList xs) = list_all serializable xs"
| "serializable (PDict d) = list_all (\<lambda>kv. serializable (snd kv)) d"
| "serializable v = True"

datatype pyerr = TypeError | KeyError | IndexError | AttributeError | ValueError | OSError

text \<open>\<open>json.dumps(v, ensure_ascii=False)\<close>; a date is not serializable.\<close>

definition json_dumps :: "pylib \<Rightarrow> pyval \<Rightarrow> pyerr + pystr" where
  "json_dumps lib v = (if serializable v then Inr (encode lib v) else Inl TypeError)"

text \<open>\<open>str(v)\<close>, which is what an f-string field \<open>{v}\<close> inserts.\<close>

definition py_str :: "pylib \<Rightarrow> pyval \<Rightarrow> pystr" where
  "py_str lib v =
     (case v of
        PNone \<Rightarrow> u ''None''
      | PBool b \<Rightarrow> (if b then u ''True'' else u ''False'')
      | PInt i \<Rightarrow> dec_int i
      | PFloat l \<Rightarrow> float_repr lib l
      | PStr s \<Rightarrow> s
      | PDate d \<Rightarrow> d
      | _ \<Rightarrow> container_str lib v)"

text \<open>\<open>bool(v)\<close>, the test of \<open>if v:\<close> and \<open>not v\<close>.\<close>

definition truthy :: "pylib \<Rightarrow> pyval \<Rightarrow> bool" where
  "truthy lib v =
     (case v of
        PNone \<Rightarrow> False
      | PBool b \<Rightarrow> b
      | PInt i \<Rightarrow> i \<noteq> 0
      | PFloat l \<Rightarrow> float_truthy lib l
      | PStr s \<Rightarrow> s \<noteq> []
      | PList xs \<Rightarrow> xs \<noteq> []
      | PDict d \<Rightarrow> d \<noteq> []
      | PDate d \<Rightarrow> True)"

text \<open>\<open>v[k]\<close> and \<open>v.get(k, default)\<close> for a string \<open>k\<close>: only a dict has them.\<close>

definition subscript :: "pyval \<Rightarrow> pystr \<Rightarrow> pyerr + pyval" where
  "subscript v k =
     (case v of
        PDict d \<Rightarrow> (case map_of d k of Some x \<Rightarrow> Inr x | None \<Rightarrow> Inl KeyError)
      | _ \<Rightarrow> Inl TypeError)"

definition py_get :: "pyval \<Rightarrow> pystr \<Rightarrow> pyval \<Rightarrow> pyerr + pyval" where
  "py_get v k dflt =
     (case v of PDict d \<Rightarrow> Inr (dict_get d k dflt) | _ \<Rightarrow> Inl AttributeError)"

fun contains_str :: "pystr \<Rightarrow> pystr \<Rightarrow> bool" where
  "contains_str [] k = (k = [])"
| "contains_str (c # cs) k = (startswith (c # cs) k \<or> contains_str cs k)"

text \<open>\<open>k in v\<close> for a string \<open>k\<close>: a key of a dict, an element of a list, a substring of
  a string; the other values are not iterable.\<close>

definition py_in :: "pystr \<Rightarrow> pyval \<Rightarrow> pyerr + bool" where
  "py_in k v =
     (case v of
        PDict d \<Rightarrow> Inr (k \<in> fst ` set d)
      | PList xs \<Rightarrow> Inr (PStr k \<in> set xs)
      | PStr s \<Rightarrow> Inr (contains_str s k)
      | _ \<Rightarrow> Inl TypeError)"

section \<open>The categorizer (\<open>categorize.py\<close>)\<close>

subsection \<open>Configuration\<close>

definition max_content_length :: nat where
  "max_content_length = 4000"

definition retry_attempts :: nat where
  "retry_attempts = 3"

text \<open>Delays are counted in milliseconds: \<open>retry_delay\<close> is 2 seconds, the pause between
  two documents half a second.\<close>

definition retry_delay :: nat where
  "retry_delay = 2000"

definition request_delay :: nat where
  "request_delay = 500"

definition CATEGORIES :: "(pystr \<times> pystr list) list" where
  "CATEGORIES =
     [(u ''areas'', [u ''health'', u ''finance'', u ''career'', u ''family'']),
      (u ''resources'',
         [u ''data-science'', u ''programming'', u ''business'', u ''personal-dev'']),
      (u ''archive'', [u ''old-projects'', u ''completed'', u ''outdated''])]"

definition CLASSIFICATION_PROMPT_TEMPLATE :: pystr where
  \<open>CLASSIFICATION_PROMPT_TEMPLATE =
     u ''You are a document classifier. Analyze the note and return ONLY JSON without markdown formatting.'' @ [10] @
     [10] @
     u ''CATEGORIES:'' @ [10] @
     u ''- areas: ongoing responsibilities (health, finance, family, career)'' @ [10] @
     u ''- resources: reference material, knowledge (data science, programming, business, personal development)'' @ [10] @
     u ''- archive: outdated, completed projects, temporary notes'' @ [10] @
     [10] @
     u ''SUBCATEGORIES:'' @ [10] @
     u ''areas '' @ [8594] @ u '' health | finance | career | family'' @ [10] @
     u ''resources '' @ [8594] @ u '' data-science | programming | business | personal-dev'' @ [10] @
     u ''archive '' @ [8594] @ u '' old-projects | completed | outdated'' @ [10] @
     [10] @
     u ''RULES:'' @ [10] @
     u ''1. If note is about health, fitness, medicine '' @ [8594] @ u '' areas/health'' @ [10] @
     u ''2. If note is about money, investments '' @ [8594] @ u '' areas/finance'' @ [10] @
     u ''3. If note is about work, career, skills '' @ [8594] @ u '' areas/career'' @ [10] @
     u ''4. If note is about family, children '' @ [8594] @ u '' areas/family'' @ [10] @
     u ''5. If note is about ML, Python, SQL, analytics '' @ [8594] @ u '' resources/data-science'' @ [10] @
     u ''6. If note is about code, architecture '' @ [8594] @ u '' resources/programming'' @ [10] @
     u ''7. If note is about business, sales '' @ [8594] @ u '' resources/business'' @ [10] @
     u ''8. If note is about personal growth, values '' @ [8594] @ u '' resources/personal-dev'' @ [10] @
     u ''9. If note is outdated, temporary, empty '' @ [8594] @ u '' archive'' @ [10] @
     [10] @
     u ''RESPONSE FORMAT (JSON only, no ```json):'' @ [10] @
     u ''{"category": "resources", "subcategory": "data-science", "tags": ["machine-learning", "python"], "summary": "Brief description"}'' @ [10] @
     [10] @
     u ''NOTE:'' @ [10] @
     u ''---'' @ [10] @
     u ''File: $FILENAME$'' @ [10] @
     u ''---'' @ [10] @
     u ''$CONTENT$''\<close>

subsection \<open>The world around the program\<close>

text \<open>
  The classification service answers a prompt with a text, or the call raises: a
  \<open>ValueError\<close> (which the retry loop catches) or any other exception. Its answer may
  depend on everything that happened before, so it is a function of the trace so far.
  \<open>io_ok\<close> says which operations on the documents succeed; a failing one raises
  \<open>OSError\<close>. Writing the checkpoint and the log is taken to succeed.
\<close>

datatype reply = Text pystr | RaisesValueError | RaisesOther

datatype event = ApiCall pystr | Sleep nat

datatype io_op =
    Mkdir pystr pystr
  | WriteText pystr pystr pystr
  | Unlink pystr

record env =
  service :: "event list \<Rightarrow> pystr \<Rightarrow> reply"
  lib :: pylib
  io_ok :: "io_op \<Rightarrow> bool"

text \<open>An entry of the source directory is a text file or something \<open>read_text\<close> fails on
  (a directory, bytes that are not UTF-8).\<close>

datatype fnode = File pystr | Unreadable

record result_entry =
  r_file :: pystr
  r_classification :: pyval
  r_moved_to :: pystr
  r_dry_run :: bool

type_synonym error_entry = "pystr \<times> pystr"

text \<open>
  The disk: the entries of \<open>input/\<close> by name (\<open>None\<close>: no such directory), the
  directories \<open>output/<category>/<subcategory>\<close> and the files in them, the set stored
  under \<open>processed\<close> in \<open>data/checkpoint.json\<close>, and the results and errors stored in
  \<open>data/categorization.json\<close> (\<open>None\<close>: no such file). The other fields of the two JSON
  files (time stamp, counts, \<open>last_file\<close>) are functions of these.
\<close>

record filesystem =
  source_dir :: "(pystr \<times> fnode) list option"
  target_dirs :: "(pystr \<times> pystr) set"
  target_files :: "pystr \<times> pystr \<times> pystr \<rightharpoonup> pystr"
  checkpoint_file :: "pystr set option"
  log_file :: "(result_entry list \<times> error_entry list) option"

text \<open>A \<open>DocumentCategorizer\<close> object, with the disk and the trace of service calls and
  sleeps it has made.\<close>

record categorizer =
  dry_run :: bool
  results :: "result_entry list"
  errors :: "error_entry list"
  processed_files :: "pystr set"
  disk :: filesystem
  trace :: "event list"

subsection \<open>Checkpoint and log\<close>

definition load_checkpoint :: "categorizer \<Rightarrow> categorizer" where
  "load_checkpoint st =
     (case checkpoint_file (disk st) of
        None \<Rightarrow> st
      | Some p \<Rightarrow> st\<lparr>processed_files := p\<rparr>)"

definition init :: "bool \<Rightarrow> filesystem \<Rightarrow> event list \<Rightarrow> categorizer" where
  "init dry d tr =
     load_checkpoint
       \<lparr>dry_run = dry, results = [], errors = [], processed_files = {}, disk = d, trace = tr\<rparr>"

definition save_results :: "categorizer \<Rightarrow> categorizer" where
  "save_results st = st\<lparr>disk := (disk st)\<lparr>log_file := Some (results st, errors st)\<rparr>\<rparr>"

definition save_checkpoint :: "categorizer \<Rightarrow> categorizer" where
  "save_checkpoint st =
     save_results (st\<lparr>disk := (disk st)\<lparr>checkpoint_file := Some (processed_files st)\<rparr>\<rparr>)"

subsection \<open>\<open>get_files_to_process\<close>\<close>




subsection \<open>\<open>classify_note\<close>\<close>

text \<open>The two substitutions \<open>re.sub(r"^```json?\s*", "", t)\<close> and
  \<open>re.sub(r"\s*```$", "", t)\<close>. \<open>$\<close> also matches before a line feed that ends the
  text.\<close>

definition sub_fence_start :: "pystr \<Rightarrow> pystr" where
  "sub_fence_start t =
     (if startswith t (u ''```jso'')
      then lstrip (let r = drop 6 t in if take 1 r = [110] then drop 1 r else r)
      else t)"

definition sub_fence_end :: "pystr \<Rightarrow> pystr" where
  "sub_fence_end t =
     (if endswith t (u ''```'') then rstrip (take (length t - 3) t)
      else if endswith t (u ''```'' @ [10]) then rstrip (take (length t - 4) t) @ [10]
      else t)"

text \<open>The text handed to \<open>json.loads\<close>: from the first \<open>{\<close> to the last \<open>}\<close> when there
  are both, in this order.\<close>

definition extract_json :: "pystr \<Rightarrow> pystr" where
  "extract_json response =
     (let result_text = strip response;
          result_text = sub_fence_start result_text;
          result_text = sub_fence_end result_text;
          start_idx = str_find result_text 123;
          end_idx = str_rfind result_text 125 + 1
      in if 0 \<le> start_idx \<and> start_idx < end_idx
         then slice result_text (nat start_idx) (nat end_idx)
         else result_text)"

definition parse_response :: "pystr \<Rightarrow> pyval option" where
  "parse_response response = json_loads (extract_json response)"

text \<open>\<open>_validate_result\<close>. \<open>category not in CATEGORIES\<close> hashes the category, which
  raises \<open>TypeError\<close> for a list or a dict; membership in the list of subcategories
  compares with \<open>==\<close> and never raises.\<close>

definition hashable :: "pyval \<Rightarrow> bool" where
  "hashable v = (case v of PList xs \<Rightarrow> False | PDict d \<Rightarrow> False | _ \<Rightarrow> True)"

definition validate_result :: "pyval \<Rightarrow> pyerr + bool" where
  "validate_result result =
     (case py_in (u ''category'') result of
        Inl e \<Rightarrow> Inl e
      | Inr False \<Rightarrow> Inr False
      | Inr True \<Rightarrow>
          (case py_in (u ''subcategory'') result of
             Inl e \<Rightarrow> Inl e
           | Inr False \<Rightarrow> Inr False
           | Inr True \<Rightarrow>
               (case subscript result (u ''category'') of
                  Inl e \<Rightarrow> Inl e
                | Inr category \<Rightarrow>
                    (case subscript result (u ''subcategory'') of
                       Inl e \<Rightarrow> Inl e
                     | Inr subcategory \<Rightarrow>
                         if \<not> hashable category then Inl TypeError
                         else
                           (case category of
                              PStr c \<Rightarrow>
                                (case map_of CATEGORIES c of
                                   None \<Rightarrow> Inr False
                                 | Some subs \<Rightarrow> Inr (subcategory \<in> PStr ` set subs))
                            | _ \<Rightarrow> Inr False)))))"

text \<open>
  The invariant of a classification as the data model states it: the category is one of
  the fixed set and the subcategory is one of the set owned by that category.
\<close>

definition valid_classification :: "pyval \<Rightarrow> bool" where
  "valid_classification result =
     (case result of
        PDict d \<Rightarrow>
          (case (map_of d (u ''category''), map_of d (u ''subcategory'')) of
             (Some (PStr c), Some (PStr s)) \<Rightarrow>
               (case map_of CATEGORIES c of Some subs \<Rightarrow> s \<in> set subs | None \<Rightarrow> False)
           | _ \<Rightarrow> False)
      | _ \<Rightarrow> False)"

definition build_prompt :: "pystr \<Rightarrow> pystr \<Rightarrow> pystr" where
  "build_prompt name content =
     (let content = (if max_content_length < length content
                     then take max_content_length content @ [10] @ u ''...[truncated]...''
                     else content)
      in str_replace (str_replace CLASSIFICATION_PROMPT_TEMPLATE (u ''$FILENAME$'') name)
           (u ''$CONTENT$'') content)"

text \<open>
  The retry loop, \<open>k\<close> attempts before the end of \<open>range(retry_attempts)\<close>. A
  \<open>JSONDecodeError\<close> or \<open>ValueError\<close> is retried after a sleep unless the attempt is the
  last one; then, and on any other exception, the handler around the loop returns
  \<open>None\<close>.
\<close>

fun classify_attempts :: "env \<Rightarrow> pystr \<Rightarrow> nat \<Rightarrow> event list \<Rightarrow> pyval option \<times> event list" where
  "classify_attempts e prompt 0 tr = (None, tr)"
| "classify_attempts e prompt (Suc k) tr =
     (let tr1 = tr @ [ApiCall prompt];
          retry = (if 0 < k then classify_attempts e prompt k (tr1 @ [Sleep retry_delay])
                   else (None, tr1))
      in case service e tr prompt of
           RaisesOther \<Rightarrow> (None, tr1)
         | RaisesValueError \<Rightarrow> retry
         | Text t \<Rightarrow>
             (case parse_response t of
                None \<Rightarrow> retry
              | Some result \<Rightarrow>
                  (case validate_result result of
                     Inl err \<Rightarrow> (None, tr1)
                   | Inr False \<Rightarrow> retry
                   | Inr True \<Rightarrow> (Some result, tr1))))"

text \<open>An attempt that fails with an error the loop retries: the call raises
  \<open>ValueError\<close>, the answer holds no JSON, or the result is not valid.\<close>

definition retryable_failure :: "env \<Rightarrow> pystr \<Rightarrow> event list \<Rightarrow> bool" where
  "retryable_failure e prompt tr =
     (case service e tr prompt of
        RaisesOther \<Rightarrow> False
      | RaisesValueError \<Rightarrow> True
      | Text t \<Rightarrow>
          (case parse_response t of
             None \<Rightarrow> True
           | Some result \<Rightarrow> validate_result result = Inr False))"

definition read_text :: "filesystem \<Rightarrow> pystr \<Rightarrow> pystr option" where
  "read_text d name =
     (case source_dir d of
        None \<Rightarrow> None
      | Some entries \<Rightarrow>
          (case map_of entries name of Some (File c) \<Rightarrow> Some c | _ \<Rightarrow> None))"

definition classify_note :: "env \<Rightarrow> categorizer \<Rightarrow> pystr \<Rightarrow> pyval option \<times> categorizer" where
  "classify_note e st name =
     (case read_text (disk st) name of
        None \<Rightarrow> (None, st)
      | Some content \<Rightarrow>
          (let (r, tr) = classify_attempts e (build_prompt name content) retry_attempts (trace st)
           in (r, st\<lparr>trace := tr\<rparr>)))"

subsection \<open>\<open>add_frontmatter\<close>\<close>

text \<open>\<open>Path(name).stem\<close>: the name without its last suffix.\<close>

definition stem :: "pystr \<Rightarrow> pystr" where
  "stem name =
     (let i = str_rfind name 46
      in if 0 < i \<and> i < int (length name) - 1 then take (nat i) name else name)"

text \<open>The header is put before the content unless the content starts with \<open>---\<close>.\<close>

definition frontmatter :: "pylib \<Rightarrow> pystr \<Rightarrow> pyval \<Rightarrow> pyerr + pystr" where
  "frontmatter l name classification =
     (case subscript classification (u ''category'') of
        Inl err \<Rightarrow> Inl err
      | Inr category \<Rightarrow>
      case subscript classification (u ''subcategory'') of
        Inl err \<Rightarrow> Inl err
      | Inr subcategory \<Rightarrow>
      case py_get classification (u ''tags'') (PList []) of
        Inl err \<Rightarrow> Inl err
      | Inr tags \<Rightarrow>
      case json_dumps l tags of
        Inl err \<Rightarrow> Inl err
      | Inr tags_text \<Rightarrow>
      case py_get classification (u ''summary'') (PStr []) of
        Inl err \<Rightarrow> Inl err
      | Inr summary \<Rightarrow>
          Inr (u ''---'' @ [10]
               @ u ''title: '' @ [34] @ stem name @ [34, 10]
               @ u ''category: '' @ py_str l category @ [10]
               @ u ''subcategory: '' @ py_str l subcategory @ [10]
               @ u ''tags: '' @ tags_text @ [10]
               @ u ''summary: '' @ [34] @ py_str l summary @ [34, 10]
               @ u ''processed: '' @ today l @ [10]
               @ u ''---'' @ [10, 10]))"

definition add_frontmatter :: "pylib \<Rightarrow> filesystem \<Rightarrow> pystr \<Rightarrow> pyval \<Rightarrow> pyerr + pystr" where
  "add_frontmatter l d name classification =
     (case read_text d name of
        None \<Rightarrow> Inl OSError
      | Some content \<Rightarrow>
          if startswith content (u ''---'') then Inr content
          else
            (case frontmatter l name classification of
               Inl err \<Rightarrow> Inl err
             | Inr header \<Rightarrow> Inr (header @ content)))"

subsection \<open>\<open>process_file\<close>\<close>

datatype 'a outcome = Returned 'a | Raised pyerr

text \<open>A component joined to a \<open>Path\<close> with \<open>/\<close> has to be a string.\<close>

definition path_part :: "pyval \<Rightarrow> pyerr + pystr" where
  "path_part v = (case v of PStr s \<Rightarrow> Inr s | _ \<Rightarrow> Inl TypeError)"

definition unlink :: "pystr \<Rightarrow> filesystem \<Rightarrow> filesystem" where
  "unlink name d = d\<lparr>source_dir := map_option (filter (\<lambda>en. fst en \<noteq> name)) (source_dir d)\<rparr>"

text \<open>Whether the source directory has an entry of this name.\<close>

definition in_source :: "filesystem \<Rightarrow> pystr \<Rightarrow> bool" where
  "in_source d name =
     (case source_dir d of None \<Rightarrow> False | Some entries \<Rightarrow> name \<in> fst ` set entries)"

definition classification_failed :: "pystr \<Rightarrow> categorizer \<Rightarrow> bool outcome \<times> categorizer" where
  "classification_failed name st =
     (Returned False, st\<lparr>errors := errors st @ [(name, u ''classification_failed'')]\<rparr>)"

text \<open>
  The part of \<open>process_file\<close> that writes: the new content, the target directory, the
  file in it, the removal of the original, and only then the entry in the results and in
  \<open>processed_files\<close>. What was done before an operation fails stays done.
\<close>

definition move_file ::
  "env \<Rightarrow> categorizer \<Rightarrow> pystr \<Rightarrow> pyval \<Rightarrow> pyval \<Rightarrow> pyval \<Rightarrow> bool outcome \<times> categorizer" where
  "move_file e st name classification category subcategory =
     (case add_frontmatter (lib e) (disk st) name classification of
        Inl err \<Rightarrow> (Raised err, st)
      | Inr new_content \<Rightarrow>
      case path_part category of
        Inl err \<Rightarrow> (Raised err, st)
      | Inr cat \<Rightarrow>
      case path_part subcategory of
        Inl err \<Rightarrow> (Raised err, st)
      | Inr sub \<Rightarrow>
          if \<not> io_ok e (Mkdir cat sub) then (Raised OSError, st)
          else
            let st = st\<lparr>disk := (disk st)\<lparr>target_dirs := insert (cat, sub) (target_dirs (disk st))\<rparr>\<rparr>
            in if \<not> io_ok e (WriteText cat sub name) then (Raised OSError, st)
               else
                 let st = st\<lparr>disk := (disk st)
                            \<lparr>target_files := (target_files (disk st))((cat, sub, name) \<mapsto> new_content)\<rparr>\<rparr>
                 in if \<not> io_ok e (Unlink name) then (Raised OSError, st)
                    else
                      let st = st\<lparr>disk := unlink name (disk st)\<rparr>;
                          st = st\<lparr>results := results st @
                                 [\<lparr>r_file = name, r_classification = classification,
                                   r_moved_to = u ''output/'' @ cat @ [47] @ sub @ [47] @ name,
                                   r_dry_run = False\<rparr>]\<rparr>;
                          st = st\<lparr>processed_files := insert name (processed_files st)\<rparr>
                      in (Returned True, st))"

text \<open>The state after a move that went through, \<open>nc\<close> being the new content.\<close>

definition moved :: "categorizer \<Rightarrow> pystr \<Rightarrow> pyval \<Rightarrow> pystr \<Rightarrow> pystr \<Rightarrow> pystr \<Rightarrow> categorizer" where
  "moved st name r c s nc =
     st\<lparr>disk := unlink name ((disk st)
              \<lparr>target_dirs := insert (c, s) (target_dirs (disk st)),
               target_files := (target_files (disk st))((c, s, name) \<mapsto> nc)\<rparr>),
        results := results st @
           [\<lparr>r_file = name, r_classification = r,
             r_moved_to = u ''output/'' @ c @ [47] @ s @ [47] @ name, r_dry_run = False\<rparr>],
        processed_files := insert name (processed_files st)\<rparr>"

definition process_file :: "env \<Rightarrow> categorizer \<Rightarrow> pystr \<Rightarrow> bool outcome \<times> categorizer" where
  "process_file e st name =
     (let (classification, st) = classify_note e st name
      in case classification of
           None \<Rightarrow> classification_failed name st
         | Some c \<Rightarrow>
             if \<not> truthy (lib e) c then classification_failed name st
             else
               case subscript c (u ''category'') of
                 Inl err \<Rightarrow> (Raised err, st)
               | Inr category \<Rightarrow>
               case subscript c (u ''subcategory'') of
                 Inl err \<Rightarrow> (Raised err, st)
               | Inr subcategory \<Rightarrow>
                   if dry_run st then
                     (Returned True,
                      st\<lparr>results := results st @
                         [\<lparr>r_file = name, r_classification = c,
                           r_moved_to = u ''output/'' @ py_str (lib e) category @ [47]
                                        @ py_str (lib e) subcategory @ [47],
                           r_dry_run = True\<rparr>]\<rparr>)
                   else move_file e st name c category subcategory)"

subsection \<open>\<open>run\<close> and \<open>main\<close>\<close>

text \<open>What \<open>run\<close> does after each file, the \<open>i\<close>-th of \<open>total_files\<close>: the checkpoint
  every tenth file, and a pause unless the run is a dry run or the file was the last.\<close>

definition checkpoint_and_pause :: "nat \<Rightarrow> nat \<Rightarrow> categorizer \<Rightarrow> categorizer" where
  "checkpoint_and_pause total_files i st =
     (let st = (if i mod 10 = 0 then save_checkpoint st else st)
      in if \<not> dry_run st \<and> i < total_files
         then st\<lparr>trace := trace st @ [Sleep request_delay]\<rparr> else st)"

text \<open>The loop of \<open>run\<close> over \<open>enumerate(files, 1)\<close> with the final save after it. An
  exception of \<open>process_file\<close> ends the run where it is.\<close>

fun run_loop :: "env \<Rightarrow> nat \<Rightarrow> nat \<Rightarrow> pystr list \<Rightarrow> categorizer \<Rightarrow> unit outcome \<times> categorizer" where
  "run_loop e total_files i [] st = (Returned (), save_checkpoint st)"
| "run_loop e total_files i (filepath # files) st =
     (case process_file e st filepath of
        (Raised err, st) \<Rightarrow> (Raised err, st)
      | (Returned b, st) \<Rightarrow> run_loop e total_files (Suc i) files (checkpoint_and_pause total_files i st))"







section \<open>The index builder (\<open>build_index.py\<close>)\<close>

text \<open>\<open>s.find(sub, start)\<close>, \<open>s.split(c)\<close> for a one-character separator, and
  \<open>s.strip(c)\<close> for a one-character set.\<close>

fun find_sub_at :: "pystr \<Rightarrow> nat \<Rightarrow> pystr \<Rightarrow> int" where
  "find_sub_at sub i [] = (if sub = [] then int i else -1)"
| "find_sub_at sub i (c # cs) =
     (if startswith (c # cs) sub then int i else find_sub_at sub (Suc i) cs)"

definition str_find_sub :: "pystr \<Rightarrow> pystr \<Rightarrow> nat \<Rightarrow> int" where
  "str_find_sub s sub start =
     (if length s < start then -1 else find_sub_at sub start (drop start s))"

fun split_char :: "nat \<Rightarrow> pystr \<Rightarrow> pystr list" where
  "split_char c [] = [[]]"
| "split_char c (x # xs) =
     (if x = c then [] # split_char c xs
      else (case split_char c xs of [] \<Rightarrow> [[x]] | y # ys \<Rightarrow> (x # y) # ys))"

definition strip_char :: "nat \<Rightarrow> pystr \<Rightarrow> pystr" where
  "strip_char c s = rev (dropWhile (\<lambda>x. x = c) (rev (dropWhile (\<lambda>x. x = c) s)))"

text \<open>The parser used when PyYAML is not installed: one \<open>key: value\<close> per line.\<close>

definition fallback_line :: "(pystr \<times> pyval) list \<Rightarrow> pystr \<Rightarrow> (pystr \<times> pyval) list" where
  "fallback_line result line =
     (if 58 \<in> set line
      then let key = takeWhile (\<lambda>x. x \<noteq> 58) line;
               val = drop 1 (dropWhile (\<lambda>x. x \<noteq> 58) line)
           in dict_set result (strip key) (PStr (strip_char 34 (strip val)))
      else result)"

text \<open>
  \<open>extract_frontmatter\<close>. The first argument is the module \<open>yaml\<close>: \<open>None\<close> when it is
  not installed, otherwise \<open>yaml.safe_load\<close>, which gives a value or raises (\<open>None\<close>).
  Every exception gives the empty dict.
\<close>

definition extract_frontmatter ::
  "(pystr \<Rightarrow> pyval option) option \<Rightarrow> pylib \<Rightarrow> pystr \<Rightarrow> pyval" where
  "extract_frontmatter yaml l content =
     (if \<not> startswith content (u ''---'') then PDict []
      else
        let end_idx = str_find_sub content (u ''---'') 3
        in if end_idx = -1 then PDict []
           else
             let frontmatter_text = strip (slice content 3 (nat end_idx))
             in case yaml of
                  Some safe_load \<Rightarrow>
                    (case safe_load frontmatter_text of
                       None \<Rightarrow> PDict []
                     | Some v \<Rightarrow> if truthy l v then v else PDict [])
                | None \<Rightarrow> PDict (foldl fallback_line [] (split_char 10 frontmatter_text)))"

text \<open>The handling of the tags in \<open>scan_notes\<close>: a string is decoded as JSON, and kept as
  the only element of a list when that fails; any other value is kept.\<close>

definition normalize_tags :: "pyval \<Rightarrow> pyval" where
  "normalize_tags tags =
     (case tags of
        PStr s \<Rightarrow> (case json_loads s of Some v \<Rightarrow> v | None \<Rightarrow> PList [PStr s])
      | _ \<Rightarrow> tags)"

definition normalize_processed :: "pylib \<Rightarrow> pyval \<Rightarrow> pyval" where
  "normalize_processed l processed =
     (case processed of
        PDate d \<Rightarrow> PStr d
      | PStr s \<Rightarrow> processed
      | _ \<Rightarrow> if truthy l processed then PStr (py_str l processed) else processed)"

record index_entry =
  e_file :: pystr
  e_path :: pystr
  e_category :: pystr
  e_subcategory :: pystr
  e_title :: pyval
  e_tags :: pyval
  e_summary :: pyval
  e_processed :: pyval
  e_size :: nat

text \<open>
  The body of the loop of \<open>scan_notes\<close> for one file, given by the directories from
  \<open>output/\<close> down to it, its name and its content. \<open>None\<close>: an exception, the file is
  reported and left out.
\<close>

definition scan_file ::
  "(pystr \<Rightarrow> pyval option) option \<Rightarrow> pylib \<Rightarrow> pystr list \<times> pystr \<times> fnode \<Rightarrow> index_entry option" where
  "scan_file yaml l f =
     (case f of (dirs, name, node) \<Rightarrow>
        case node of
          Unreadable \<Rightarrow> None
        | File content \<Rightarrow>
            let fm = extract_frontmatter yaml l content;
                parts = dirs @ [name]
            in case (py_get fm (u ''processed'') (PStr []), py_get fm (u ''tags'') (PList []),
                     py_get fm (u ''title'') (PStr (stem name)),
                     py_get fm (u ''summary'') (PStr [])) of
                 (Inr processed, Inr tags, Inr title, Inr summary) \<Rightarrow>
                   Some \<lparr>e_file = name,
                         e_path = str_join [47] parts,
                         e_category = (case parts of c # _ \<Rightarrow> c | [] \<Rightarrow> u ''unknown''),
                         e_subcategory = (case parts of _ # s # _ \<Rightarrow> s | _ \<Rightarrow> u ''unknown''),
                         e_title = title,
                         e_tags = normalize_tags tags,
                         e_summary = summary,
                         e_processed = normalize_processed l processed,
                         e_size = length content\<rparr>
               | _ \<Rightarrow> None)"

definition scan_notes ::
  "(pystr \<Rightarrow> pyval option) option \<Rightarrow> pylib \<Rightarrow> (pystr list \<times> pystr \<times> fnode) list \<Rightarrow> index_entry list" where
  "scan_notes yaml l files = List.map_filter (scan_file yaml l) files"

text \<open>
  \<open>build_stats\<close> counts the tags with \<open>for tag in note.get("tags", [])\<close>. The loop
  goes over the elements of a list, the characters of a string and the keys of a dict;
  any other value is not iterable and the loop raises \<open>TypeError\<close>.
\<close>

definition stats_tags :: "index_entry \<Rightarrow> pyerr + pyval list" where
  "stats_tags n =
     (case e_tags n of
        PList xs \<Rightarrow> Inr xs
      | PStr s \<Rightarrow> Inr (map (\<lambda>c. PStr [c]) s)
      | PDict d \<Rightarrow> Inr (map (\<lambda>kv. PStr (fst kv)) d)
      | _ \<Rightarrow> Inl TypeError)"

section \<open>The hub generator (\<open>generate_moc.py\<close>)\<close>

text \<open>
  The generator reads the notes of the index file; they are taken as the index builder
  writes them for documents with textual header fields and a list of strings as tags.
\<close>

record hub_note =
  n_file :: pystr
  n_path :: pystr
  n_category :: pystr
  n_subcategory :: pystr
  n_title :: pystr
  n_tags :: "pystr list"
  n_summary :: pystr
  n_processed :: pystr
  n_size :: nat

definition min_notes_for_tag_moc :: nat where
  "min_notes_for_tag_moc = 5"

text \<open>\<open>d[k].append(x)\<close> on a \<open>defaultdict(list)\<close>, kept in insertion order.\<close>

fun dd_append :: "(pystr \<times> 'a list) list \<Rightarrow> pystr \<Rightarrow> 'a \<Rightarrow> (pystr \<times> 'a list) list" where
  "dd_append [] k x = [(k, [x])]"
| "dd_append ((k', xs) # d) k x =
     (if k' = k then (k', xs @ [x]) # d else (k', xs) # dd_append d k x)"

record groups =
  by_subcategory :: "(pystr \<times> hub_note list) list"
  by_tag :: "(pystr \<times> hub_note list) list"

definition group_tag :: "hub_note \<Rightarrow> (pystr \<times> hub_note list) list \<Rightarrow> pystr \<Rightarrow> (pystr \<times> hub_note list) list" where
  "group_tag n d tag = (if tag \<noteq> [] then dd_append d tag n else d)"

definition group_note :: "groups \<Rightarrow> hub_note \<Rightarrow> groups" where
  "group_note g n =
     \<lparr>by_subcategory = dd_append (by_subcategory g) (n_category n @ [47] @ n_subcategory n) n,
      by_tag = foldl (group_tag n) (by_tag g) (n_tags n)\<rparr>"

definition group_notes :: "hub_note list \<Rightarrow> groups" where
  "group_notes notes = foldl group_note \<lparr>by_subcategory = [], by_tag = []\<rparr> notes"

text \<open>
  The three functions that render the text of a hub are parameters: which hubs are
  written does not depend on the text. \<open>generate_subcategory_moc\<close> unpacks
  \<open>subcategory.split("/")\<close> into two names and raises \<open>ValueError\<close> otherwise.
\<close>

record renderers =
  render_main :: "groups \<Rightarrow> hub_note list \<Rightarrow> pystr"
  render_subcategory :: "pystr \<Rightarrow> hub_note list \<Rightarrow> pystr"
  render_tag :: "pystr \<Rightarrow> hub_note list \<Rightarrow> pystr"

definition generate_subcategory_moc :: "renderers \<Rightarrow> pystr \<Rightarrow> hub_note list \<Rightarrow> pyerr + pystr" where
  "generate_subcategory_moc r subcategory notes =
     (if length (split_char 47 subcategory) = 2
      then Inr (render_subcategory r subcategory notes) else Inl ValueError)"

datatype hub = MainHub | SubcategoryHub pystr | TagHub pystr

text \<open>The directory of the hubs, by file name, and the hubs this run has written.
  \<open>write_ok\<close> says for which file names \<open>mkdir\<close> and \<open>write_text\<close> succeed.\<close>

record moc_dir =
  moc_files :: "pystr \<rightharpoonup> pystr"
  written :: "(hub \<times> pystr) list"

definition save_moc ::
  "(pystr \<Rightarrow> bool) \<Rightarrow> hub \<Rightarrow> pystr \<Rightarrow> pystr \<Rightarrow> bool \<Rightarrow> moc_dir \<Rightarrow> unit outcome \<times> moc_dir" where
  "save_moc write_ok h filename content preview m =
     (if preview then (Returned (), m)
      else if \<not> write_ok filename then (Raised OSError, m)
      else (Returned (),
            m\<lparr>moc_files := (moc_files m)(filename \<mapsto> content),
              written := written m @ [(h, filename)]\<rparr>))"

fun subcategory_loop ::
  "(pystr \<Rightarrow> bool) \<Rightarrow> renderers \<Rightarrow> bool \<Rightarrow> (pystr \<times> hub_note list) list \<Rightarrow> moc_dir
     \<Rightarrow> unit outcome \<times> moc_dir" where
  "subcategory_loop write_ok r preview [] m = (Returned (), m)"
| "subcategory_loop write_ok r preview ((subcat, subcat_notes) # rest) m =
     (if 0 < length subcat_notes then
        (case split_char 47 subcat of
           _ # name # _ \<Rightarrow>
             (case generate_subcategory_moc r subcat subcat_notes of
                Inl err \<Rightarrow> (Raised err, m)
              | Inr content \<Rightarrow>
                  (case save_moc write_ok (SubcategoryHub subcat)
                          (u ''_MOC-'' @ name @ u ''.md'') content preview m of
                     (Raised err, m) \<Rightarrow> (Raised err, m)
                   | (Returned x, m) \<Rightarrow> subcategory_loop write_ok r preview rest m))
         | _ \<Rightarrow> (Raised IndexError, m))
      else subcategory_loop write_ok r preview rest m)"

fun tag_loop ::
  "(pystr \<Rightarrow> bool) \<Rightarrow> renderers \<Rightarrow> bool \<Rightarrow> (pystr \<times> hub_note list) list \<Rightarrow> moc_dir
     \<Rightarrow> unit outcome \<times> moc_dir" where
  "tag_loop write_ok r preview [] m = (Returned (), m)"
| "tag_loop write_ok r preview ((tag, tag_notes) # rest) m =
     (if min_notes_for_tag_moc \<le> length tag_notes then
        (case save_moc write_ok (TagHub tag) (u ''_MOC-tag-'' @ tag @ u ''.md'')
                (render_tag r tag tag_notes) preview m of
           (Raised err, m) \<Rightarrow> (Raised err, m)
         | (Returned x, m) \<Rightarrow> tag_loop write_ok r preview rest m)
      else tag_loop write_ok r preview rest m)"

text \<open>\<open>main\<close> of the generator; the index is \<open>None\<close> when the index file is missing.\<close>

definition main_moc ::
  "(pystr \<Rightarrow> bool) \<Rightarrow> renderers \<Rightarrow> bool \<Rightarrow> hub_note list option \<Rightarrow> moc_dir \<Rightarrow> unit outcome \<times> moc_dir" where
  "main_moc write_ok r preview index m =
     (let notes = (case index of None \<Rightarrow> [] | Some ns \<Rightarrow> ns)
      in if notes = [] then (Returned (), m)
         else
           let gs = group_notes notes
           in case save_moc write_ok MainHub (u ''_MOC-index.md'') (render_main r gs notes)
                     preview m of
                (Raised err, m) \<Rightarrow> (Raised err, m)
              | (Returned x, m) \<Rightarrow>
                  (case subcategory_loop write_ok r preview (by_subcategory gs) m of
                     (Raised err, m) \<Rightarrow> (Raised err, m)
                   | (Returned x, m) \<Rightarrow> tag_loop write_ok r preview (by_tag gs) m))"

text \<open>How often a tag occurs in the tag lists of the notes, in how many notes it occurs,
  and the name of its hub file.\<close>

definition tag_occurrences :: "pystr \<Rightarrow> hub_note list \<Rightarrow> nat" where
  "tag_occurrences t notes = sum_list (map (\<lambda>n. count_list (n_tags n) t) notes)"

definition notes_with_tag :: "pystr \<Rightarrow> hub_note list \<Rightarrow> nat" where
  "notes_with_tag t notes = length (filter (\<lambda>n. t \<in> set (n_tags n)) notes)"

definition tag_hub_file :: "pystr \<Rightarrow> pystr" where
  "tag_hub_file t = u ''_MOC-tag-'' @ t @ u ''.md''"

text \<open>The number of notes a grouping holds under a key.\<close>

definition group_size :: "(pystr \<times> 'a list) list \<Rightarrow> pystr \<Rightarrow> nat" where
  "group_size d k = (case map_of d k of None \<Rightarrow> 0 | Some xs \<Rightarrow> length xs)"


section \<open>Example inputs\<close>

text \<open>Concrete environments, documents and service answers on which the theorems below
  are evaluated.\<close>

definition lib1 :: pylib where
  "lib1 = \<lparr>float_repr = (\<lambda>l. l), float_truthy = (\<lambda>l. True), container_str = (\<lambda>v. []),
           today = u ''2026-01-01''\<rparr>"

definition example_minimal :: "(pystr \<times> pyval) list" where
  "example_minimal = [(u ''category'', PStr (u ''areas'')), (u ''subcategory'', PStr (u ''health''))]"

definition reply_valid :: pystr where
  \<open>reply_valid = u ''```json'' @ [10] @ u ''{"category": "areas", "subcategory": "health"}'' @ [10] @ u ''```''\<close>

definition reply_invalid :: pystr where
  \<open>reply_invalid = u ''{"category": "areas", "subcategory": "cooking"}''\<close>

definition env1 :: "pystr \<Rightarrow> env" where
  "env1 answer = \<lparr>service = (\<lambda>tr prompt. Text answer), lib = lib1, io_ok = (\<lambda>op. True)\<rparr>"



definition example_invalid :: "(pystr \<times> pyval) list" where
  "example_invalid = [(u ''category'', PStr (u ''areas'')), (u ''subcategory'', PStr (u ''cooking''))]"

definition reply_unhashable :: pystr where
  \<open>reply_unhashable = u ''{"category": ["areas"], "subcategory": "health"}''\<close>

definition disk_two :: filesystem where
  "disk_two = \<lparr>source_dir = Some [(u ''a.md'', File (u ''alpha'')), (u ''b.md'', File (u ''beta''))],
               target_dirs = {}, target_files = Map.empty, checkpoint_file = None,
               log_file = None\<rparr>"

definition failed_trace :: "pystr \<Rightarrow> event list" where
  "failed_trace p = [ApiCall p, Sleep retry_delay, ApiCall p, Sleep retry_delay, ApiCall p]"

definition doc_alpha_moved :: pystr where
  \<open>doc_alpha_moved =
     u ''---'' @ [10] @ u ''title: "a"'' @ [10] @ u ''category: areas'' @ [10]
     @ u ''subcategory: health'' @ [10] @ u ''tags: []'' @ [10] @ u ''summary: ""'' @ [10]
     @ u ''processed: 2026-01-01'' @ [10] @ u ''---'' @ [10, 10] @ u ''alpha''\<close>

definition reply_pre :: pystr where
  \<open>reply_pre = u ''Here is the classification:'' @ [10] @ u ''```json'' @ [10]\<close>

definition reply_body :: pystr where
  \<open>reply_body = u ''"category": "resources", "subcategory": "programming", "tags": ["python"], "summary": "About code"''\<close>

definition reply_post :: pystr where
  \<open>reply_post = [10] @ u ''```'' @ [10] @ u ''Let me know if you need more.''\<close>

definition reply_braces :: pystr where
  \<open>reply_braces = u ''Result {draft}:'' @ [10] @ u ''```json'' @ [10] @ [123] @ reply_body @ [125] @ [10] @ u ''```''\<close>

definition example_full :: "(pystr \<times> pyval) list" where
  "example_full =
     [(u ''category'', PStr (u ''resources'')), (u ''subcategory'', PStr (u ''programming'')),
      (u ''tags'', PList [PStr (u ''python'')]), (u ''summary'', PStr (u ''About code''))]"

definition doc_tags_number :: pystr where
  \<open>doc_tags_number = u ''---'' @ [10] @ u ''title: "Budget"'' @ [10] @ u ''tags: 2024'' @ [10] @ u ''---'' @ [10, 10] @ u ''text''\<close>

definition tagged :: "pystr \<Rightarrow> pystr list \<Rightarrow> hub_note" where
  "tagged name tags =
     \<lparr>n_file = name, n_path = u ''areas/health/'' @ name, n_category = u ''areas'',
      n_subcategory = u ''health'', n_title = name, n_tags = tags, n_summary = [],
      n_processed = u ''2026-01-01'', n_size = 4\<rparr>"

definition notes_xy :: "hub_note list" where
  "notes_xy =
     [tagged (u ''1.md'') [u ''x'', u ''y''], tagged (u ''2.md'') [u ''x'', u ''y''],
      tagged (u ''3.md'') [u ''x'', u ''y''], tagged (u ''4.md'') [u ''x'', u ''y''],
      tagged (u ''5.md'') [u ''x'']]"

definition notes_empty_tag :: "hub_note list" where
  "notes_empty_tag =
     [tagged (u ''1.md'') [[]], tagged (u ''2.md'') [[]], tagged (u ''3.md'') [[]],
      tagged (u ''4.md'') [[]], tagged (u ''5.md'') [[]]]"

definition plain_renderers :: renderers where
  "plain_renderers =
     \<lparr>render_main = (\<lambda>g ns. u ''# MOC: Main Index''),
      render_subcategory = (\<lambda>k ns. u ''# MOC: '' @ k),
      render_tag = (\<lambda>t ns. u ''# MOC: #'' @ t)\<rparr>"

definition moc_empty :: moc_dir where
  "moc_empty = \<lparr>moc_files = Map.empty, written = []\<rparr>"

definition example_unhashable :: "(pystr \<times> pyval) list" where
  "example_unhashable =
     [(u ''category'', PList [PStr (u ''areas'')]), (u ''subcategory'', PStr (u ''health''))]"

definition notes_repeated_tag :: "hub_note list" where
  "notes_repeated_tag =
     [tagged (u ''1.md'') [u ''x'', u ''x''], tagged (u ''2.md'') [u ''x''],
      tagged (u ''3.md'') [u ''x''], tagged (u ''4.md'') [u ''x'']]"



section \<open>Properties\<close>

subsection \<open>The JSON decoder returns\<close>

lemma skip_ws_length: "length (skip_ws s) \<le> length s"
  by (simp add: skip_ws_def length_dropWhile_le)

lemma int_part_length: "length (int_part s) \<le> length s"
  by (cases s) (simp_all add: int_part_def le_SucI length_takeWhile_le)

lemma match_number_length:
  assumes "match_number s = Some (v, r)"
  shows "length r < length s"
proof -
  define s1 where "s1 = (if take 1 s = [45] then drop 1 s else s)"
  define ip where "ip = int_part s1"
  from assms have ip: "ip \<noteq> []"
    unfolding match_number_def Let_def s1_def ip_def by (simp split: if_splits)
  from assms have r: "length r \<le> length s1 - length ip"
    unfolding match_number_def Let_def s1_def ip_def
    by (auto split: if_splits)
  have "length ip \<le> length s1" unfolding ip_def by (rule int_part_length)
  moreover have "length s1 \<le> length s" unfolding s1_def by simp
  moreover have "0 < length ip" using ip by simp
  ultimately show ?thesis using r by linarith
qed


lemma scanstring_length: "scanstring acc s = Some (x, r) \<Longrightarrow> length r < length s"
proof (induction acc s rule: scanstring.induct)
  case (1 acc)
  then show ?case by simp
next
  case (2 acc c cs)
  show ?case
  proof (cases "c = 34")
    case True
    with "2.prems" show ?thesis by simp
  next
    case False
    note c34 = this
    show ?thesis
    proof (cases "c = 92")
      case False
      with c34 "2.prems" have "c > 31" and "scanstring (acc @ [c]) cs = Some (x, r)"
        by (simp_all split: if_splits)
      with "2.IH"(5) [OF c34 False] show ?thesis by fastforce
    next
      case True
      show ?thesis
      proof (cases cs)
        case Nil
        with "2.prems" c34 True show ?thesis by simp
      next
        case (Cons e es)
        show ?thesis
        proof (cases "e = 117")
          case False
          with "2.prems" c34 True Cons obtain ch where ch: "escape_char e = Some ch"
            and sc: "scanstring (acc @ [ch]) es = Some (x, r)"
            by (auto split: option.splits)
          from "2.IH"(4) [OF c34 True Cons False ch] sc Cons show ?thesis by simp
        next
          case e: True
          from "2.prems" c34 True Cons e obtain uni where uni: "hex4 es = Some uni"
            by (auto split: option.splits)
          show ?thesis
          proof (cases "55296 \<le> uni \<and> uni \<le> 56319 \<and> take 2 (drop 4 es) = [92, 117]")
            case False
            with "2.prems" c34 True Cons e uni
            have sc: "scanstring (acc @ [uni]) (drop 4 es) = Some (x, r)"
              by (auto split: option.splits if_splits)
            from "2.IH"(3) [OF c34 True Cons e uni False] sc have "length r < length (drop 4 es)"
              by simp
            with Cons show ?thesis by simp
          next
            case sur: True
            with "2.prems" c34 True Cons e uni obtain uni2 where uni2: "hex4 (drop 6 es) = Some uni2"
              by (auto split: option.splits)
            show ?thesis
            proof (cases "56320 \<le> uni2 \<and> uni2 \<le> 57343")
              case low: True
              with "2.prems" c34 True Cons e uni uni2 sur
              have sc: "scanstring (acc @ [65536 + ((uni - 55296) * 1024 + (uni2 - 56320))])
                          (drop 10 es) = Some (x, r)"
                by simp
              from "2.IH"(1) [OF c34 True Cons e uni sur uni2 low] sc
              have "length r < length (drop 10 es)" by simp
              with Cons show ?thesis by simp
            next
              case low: False
              with "2.prems" c34 True Cons e uni uni2 sur
              have sc: "scanstring (acc @ [uni]) (drop 4 es) = Some (x, r)"
                by simp
              from "2.IH"(2) [OF c34 True Cons e uni sur uni2 low] sc
              have "length r < length (drop 4 es)" by simp
              with Cons show ?thesis by simp
            qed
          qed
        qed
      qed
    qed
  qed
qed


lemma scan_length_aux:
  "(\<forall>s v r. scan_once n s = Ok (v, r) \<longrightarrow> length r < length s) \<and>
   (\<forall>s acc v r. parse_array n s acc = Ok (v, r) \<longrightarrow> length r < length s) \<and>
   (\<forall>s acc v r. parse_object n s acc = Ok (v, r) \<longrightarrow> length r < length s)"
proof (induction n)
  case 0
  show ?case by simp
next
  case (Suc n)
  note IH = this
  have sk: "\<And>a b t. skip_ws a = b # t \<Longrightarrow> length t < length a"
    using skip_ws_length by (metis length_Cons less_eq_Suc_le)
  have sk2: "\<And>a. length (skip_ws a) \<le> length a" by (rule skip_ws_length)
  have A: "length r < length s" if "scan_once (Suc n) s = Ok (v, r)" for s v r
  proof (cases s)
    case Nil
    with that show ?thesis by simp
  next
    case (Cons c cs)
    consider "c = 34" | "c = 123" | "c = 91" | "c \<noteq> 34 \<and> c \<noteq> 123 \<and> c \<noteq> 91" by blast
    then show ?thesis
    proof cases
      case 1
      with that Cons obtain x where "scanstring [] cs = Some (x, r)"
        by (auto split: option.splits)
      from scanstring_length [OF this] Cons show ?thesis by simp
    next
      case 2
      show ?thesis
      proof (cases "skip_ws cs")
        case Nil
        with that Cons 2 have "parse_object n [] [] = Ok (v, r)" by simp
        with IH show ?thesis by fastforce
      next
        case (Cons d t)
        show ?thesis
        proof (cases "d = 125")
          case True
          with that \<open>s = c # cs\<close> 2 Cons have "r = t" by simp
          with sk [OF Cons] \<open>s = c # cs\<close> show ?thesis by simp
        next
          case False
          with that \<open>s = c # cs\<close> 2 Cons have "parse_object n (skip_ws cs) [] = Ok (v, r)" by simp
          with IH have "length r < length (skip_ws cs)" by blast
          with sk2 [of cs] \<open>s = c # cs\<close> show ?thesis by simp
        qed
      qed
    next
      case 3
      show ?thesis
      proof (cases "skip_ws cs")
        case Nil
        with that Cons 3 have "parse_array n [] [] = Ok (v, r)" by simp
        with IH show ?thesis by fastforce
      next
        case (Cons d t)
        show ?thesis
        proof (cases "d = 93")
          case True
          with that \<open>s = c # cs\<close> 3 Cons have "r = t" by simp
          with sk [OF Cons] \<open>s = c # cs\<close> show ?thesis by simp
        next
          case False
          with that \<open>s = c # cs\<close> 3 Cons have "parse_array n (skip_ws cs) [] = Ok (v, r)" by simp
          with IH have "length r < length (skip_ws cs)" by blast
          with sk2 [of cs] \<open>s = c # cs\<close> show ?thesis by simp
        qed
      qed
    next
      case 4
      with that Cons have "(\<exists>k>0. r = drop k s) \<or> match_number s = Some (v, r)"
        by (auto split: if_splits option.splits)
      then show ?thesis
      proof
        assume "\<exists>k>0. r = drop k s"
        with Cons show ?thesis by auto
      next
        assume "match_number s = Some (v, r)"
        then show ?thesis by (rule match_number_length)
      qed
    qed
  qed
  have B: "length r < length s" if "parse_array (Suc n) s acc = Ok (v, r)" for s acc v r
  proof -
    from that obtain w r1 where w: "scan_once n s = Ok (w, r1)"
      by (auto split: res.splits)
    with IH have l1: "length r1 < length s" by blast
    show ?thesis
    proof (cases "skip_ws r1")
      case Nil
      with that w show ?thesis by simp
    next
      case (Cons d t)
      from sk [OF Cons] have l2: "length t < length r1" .
      from that w Cons consider "r = t" | "parse_array n (skip_ws t) (acc @ [w]) = Ok (v, r)"
        by (auto split: if_splits)
      then show ?thesis
      proof cases
        case 1
        with l1 l2 show ?thesis by simp
      next
        case 2
        with IH have "length r < length (skip_ws t)" by blast
        with sk2 [of t] l1 l2 show ?thesis by simp
      qed
    qed
  qed
  have C: "length r < length s" if "parse_object (Suc n) s acc = Ok (v, r)" for s acc v r
  proof -
    from that obtain s1 where s: "s = 34 # s1"
      by (cases s) (auto split: if_splits)
    from that s obtain key r0 where k: "scanstring [] s1 = Some (key, r0)"
      by (auto split: option.splits)
    from scanstring_length [OF k] have l0: "length r0 < length s1" .
    from that s k obtain r1 where c: "skip_ws r0 = 58 # r1"
      by (cases "skip_ws r0") (auto split: if_splits)
    from sk [OF c] have l1: "length r1 < length r0" .
    from that s k c obtain w r2 where w: "scan_once n (skip_ws r1) = Ok (w, r2)"
      by (auto split: res.splits)
    with IH have "length r2 < length (skip_ws r1)" by blast
    with sk2 [of r1] have l2: "length r2 < length r1" by simp
    show ?thesis
    proof (cases "skip_ws r2")
      case Nil
      with that s k c w show ?thesis by simp
    next
      case (Cons d t)
      from sk [OF Cons] have l3: "length t < length r2" .
      from that s k c w Cons consider "r = t"
        | "parse_object n (skip_ws t) (dict_set acc key w) = Ok (v, r)"
        by (auto split: if_splits)
      then show ?thesis
      proof cases
        case 1
        with l0 l1 l2 l3 s show ?thesis by simp
      next
        case 2
        with IH have "length r < length (skip_ws t)" by blast
        with sk2 [of t] l0 l1 l2 l3 s show ?thesis by simp
      qed
    qed
  qed
  from A B C show ?case by blast
qed


lemma scan_once_length: "scan_once n s = Ok (v, r) \<Longrightarrow> length r < length s"
  using scan_length_aux [of n] by blast

lemma scan_fuel_aux:
  "(\<forall>s. 2 * length s < n \<longrightarrow> scan_once n s \<noteq> OutOfFuel) \<and>
   (\<forall>s acc. 2 * length s + 1 < n \<longrightarrow> parse_array n s acc \<noteq> OutOfFuel) \<and>
   (\<forall>s acc. 2 * length s + 1 < n \<longrightarrow> parse_object n s acc \<noteq> OutOfFuel)"
proof (induction n)
  case 0
  show ?case by simp
next
  case (Suc n)
  note IH = this
  have sk: "\<And>a b t. skip_ws a = b # t \<Longrightarrow> length t < length a"
    using skip_ws_length by (metis length_Cons less_eq_Suc_le)
  have sk2: "\<And>a. length (skip_ws a) \<le> length a" by (rule skip_ws_length)
  have A: "scan_once (Suc n) s \<noteq> OutOfFuel" if "2 * length s < Suc n" for s
  proof (cases s)
    case Nil
    then show ?thesis by simp
  next
    case (Cons c cs)
    from sk2 [of cs] that Cons have "2 * length (skip_ws cs) + 1 < n" by simp
    with IH have po: "parse_object n (skip_ws cs) [] \<noteq> OutOfFuel"
      and pa: "parse_array n (skip_ws cs) [] \<noteq> OutOfFuel" by blast+
    consider "c = 34" | "c = 123" | "c = 91" | "c \<noteq> 34 \<and> c \<noteq> 123 \<and> c \<noteq> 91" by blast
    then show ?thesis
    proof cases
      case 1
      with Cons show ?thesis by (simp split: option.splits)
    next
      case 2
      with Cons po show ?thesis by (cases "skip_ws cs") auto
    next
      case 3
      with Cons pa show ?thesis by (cases "skip_ws cs") auto
    next
      case 4
      with Cons show ?thesis by (simp split: option.splits)
    qed
  qed
  have B: "parse_array (Suc n) s acc \<noteq> OutOfFuel" if "2 * length s + 1 < Suc n" for s acc
  proof (cases "scan_once n s")
    case OutOfFuel
    with IH that show ?thesis by simp
  next
    case Err
    then show ?thesis by simp
  next
    case (Ok p)
    obtain w r1 where p: "p = (w, r1)" by (cases p)
    from scan_once_length Ok p have l1: "length r1 < length s" by blast
    show ?thesis
    proof (cases "skip_ws r1")
      case Nil
      with Ok p show ?thesis by simp
    next
      case (Cons d t)
      from sk [OF Cons] sk2 [of t] l1 that have "2 * length (skip_ws t) + 1 < n" by simp
      with IH have "parse_array n (skip_ws t) (acc @ [w]) \<noteq> OutOfFuel" by blast
      with Ok p Cons show ?thesis by simp
    qed
  qed
  have C: "parse_object (Suc n) s acc \<noteq> OutOfFuel" if "2 * length s + 1 < Suc n" for s acc
  proof (cases s)
    case Nil
    then show ?thesis by simp
  next
    case s: (Cons q s1)
    show ?thesis
    proof (cases "q = 34")
      case False
      with s show ?thesis by simp
    next
      case q: True
      show ?thesis
      proof (cases "scanstring [] s1")
        case None
        with s q show ?thesis by simp
      next
        case (Some kr)
        obtain key r0 where kr: "kr = (key, r0)" by (cases kr)
        from scanstring_length Some kr have l0: "length r0 < length s1" by blast
        show ?thesis
        proof (cases "skip_ws r0")
          case Nil
          with s q Some kr show ?thesis by simp
        next
          case c: (Cons col r1)
          from sk [OF c] have l1: "length r1 < length r0" .
          show ?thesis
          proof (cases "col = 58")
            case False
            with s q Some kr c show ?thesis by simp
          next
            case col: True
            from sk2 [of r1] l0 l1 s that have "2 * length (skip_ws r1) < n" by simp
            with IH have nf: "scan_once n (skip_ws r1) \<noteq> OutOfFuel" by blast
            show ?thesis
            proof (cases "scan_once n (skip_ws r1)")
              case OutOfFuel
              with nf show ?thesis by simp
            next
              case Err
              with s q Some kr c col show ?thesis by simp
            next
              case (Ok p)
              obtain w r2 where p: "p = (w, r2)" by (cases p)
              from scan_once_length Ok p have "length r2 < length (skip_ws r1)" by blast
              with sk2 [of r1] have l2: "length r2 < length r1" by simp
              show ?thesis
              proof (cases "skip_ws r2")
                case Nil
                with s q Some kr c col Ok p show ?thesis by simp
              next
                case (Cons d t)
                from sk [OF Cons] sk2 [of t] l0 l1 l2 s that
                have "2 * length (skip_ws t) + 1 < n" by simp
                with IH have "parse_object n (skip_ws t) (dict_set acc key w) \<noteq> OutOfFuel"
                  by blast
                with s q Some kr c col Ok p Cons show ?thesis by simp
              qed
            qed
          qed
        qed
      qed
    qed
  qed
  from A B C show ?case by blast
qed

lemma decode_fuel: "scan_once n (skip_ws s) \<noteq> OutOfFuel \<Longrightarrow> decode n s \<noteq> OutOfFuel"
  by (cases "scan_once n (skip_ws s)") (auto simp: decode_def split: if_splits)

lemma json_loads_fuel: "decode (2 * length s + 1) s \<noteq> OutOfFuel"
proof -
  have "2 * length (skip_ws s) < 2 * length s + 1"
    using skip_ws_length [of s] by simp
  with scan_fuel_aux [of "2 * length s + 1"]
  have "scan_once (2 * length s + 1) (skip_ws s) \<noteq> OutOfFuel" by blast
  then show ?thesis by (rule decode_fuel)
qed

subsection \<open>Validation\<close>

lemma in_keys_iff: "k \<in> fst ` set d \<longleftrightarrow> map_of d k \<noteq> None"
  by (simp add: map_of_eq_None_iff)

lemma validate_result_dict:
  "validate_result (PDict d) =
     (case map_of d (u ''category'') of
        None \<Rightarrow> Inr False
      | Some category \<Rightarrow>
          (case map_of d (u ''subcategory'') of
             None \<Rightarrow> Inr False
           | Some subcategory \<Rightarrow>
               if \<not> hashable category then Inl TypeError
               else (case category of
                       PStr c \<Rightarrow>
                         (case map_of CATEGORIES c of
                            None \<Rightarrow> Inr False
                          | Some subs \<Rightarrow> Inr (subcategory \<in> PStr ` set subs))
                     | _ \<Rightarrow> Inr False)))"
  unfolding validate_result_def py_in_def subscript_def
  by (simp add: in_keys_iff split: option.splits)

lemma validate_result_not_dict:
  "\<forall>d. r \<noteq> PDict d \<Longrightarrow> validate_result r \<noteq> Inr True"
  unfolding validate_result_def py_in_def subscript_def
  by (cases r) (simp_all split: bool.splits)

lemma validate_result_valid: "validate_result r = Inr True \<longleftrightarrow> valid_classification r"
proof (cases "\<exists>d. r = PDict d")
  case True
  then obtain d where r: "r = PDict d" by blast
  show ?thesis
    unfolding r validate_result_dict valid_classification_def hashable_def
    by (auto split: option.splits pyval.splits)
next
  case False
  then have "validate_result r \<noteq> Inr True" by (simp add: validate_result_not_dict)
  moreover from False have "\<not> valid_classification r"
    unfolding valid_classification_def by (cases r) simp_all
  ultimately show ?thesis by simp
qed


lemma classify_attempts_valid:
  "classify_attempts e p k tr = (Some r, tr') \<Longrightarrow> valid_classification r"
proof (induction k arbitrary: tr)
  case 0
  then show ?case by simp
next
  case (Suc k)
  show ?case
  proof (cases "service e tr p")
    case RaisesOther
    with Suc.prems show ?thesis by simp
  next
    case RaisesValueError
    with Suc.prems Suc.IH show ?thesis by (auto simp: Let_def split: if_splits)
  next
    case (Text t)
    show ?thesis
    proof (cases "parse_response t")
      case None
      with Text Suc.prems Suc.IH show ?thesis by (auto simp: Let_def split: if_splits)
    next
      case (Some result)
      show ?thesis
      proof (cases "validate_result result")
        case (Inl err)
        with Text Some Suc.prems show ?thesis by simp
      next
        case (Inr b)
        show ?thesis
        proof (cases b)
          case True
          with Inr Text Some Suc.prems have "r = result" by simp
          with Inr True show ?thesis by (simp add: validate_result_valid)
        next
          case False
          with Inr Text Some Suc.prems Suc.IH show ?thesis
            by (auto simp: Let_def split: if_splits)
        qed
      qed
    qed
  qed
qed

lemma classify_note_frame:
  "classify_note e st name = (r, st') \<Longrightarrow> st' = st\<lparr>trace := trace st'\<rparr>"
  unfolding classify_note_def
  by (auto split: option.splits prod.splits)

lemma classify_note_Some:
  assumes "classify_note e st name = (Some r, st')"
  shows "valid_classification r" and "\<exists>content. read_text (disk st) name = Some content"
  using assms unfolding classify_note_def
  by (auto split: option.splits prod.splits dest: classify_attempts_valid)

lemma valid_classification_fields:
  assumes "valid_classification r"
  obtains d c s subs where "r = PDict d" "map_of d (u ''category'') = Some (PStr c)"
    "map_of d (u ''subcategory'') = Some (PStr s)" "map_of CATEGORIES c = Some subs" "s \<in> set subs"
  using assms unfolding valid_classification_def
  by (auto split: pyval.splits option.splits)

subsection \<open>Isolating the JSON object in an answer\<close>

lemma not_space_brace: "\<not> is_space 123" "\<not> is_space 125"
  by (simp_all add: is_space_def)

lemma lstrip_shape:
  "\<exists>pre'. lstrip (pre @ 123 # r) = pre' @ 123 # r \<and> set pre' \<subseteq> set pre"
proof -
  have "lstrip (pre @ 123 # r) = dropWhile is_space pre @ 123 # r"
    unfolding lstrip_def by (rule dropWhile_append3) (rule not_space_brace)
  moreover have "set (dropWhile is_space pre) \<subseteq> set pre" by (rule set_dropWhileD [THEN subsetI])
  ultimately show ?thesis by blast
qed

lemma rstrip_shape:
  "\<exists>post'. rstrip (x @ 125 # post) = x @ 125 # post' \<and> set post' \<subseteq> set post"
proof -
  have "dropWhile is_space (rev post @ 125 # rev x) = dropWhile is_space (rev post) @ 125 # rev x"
    by (rule dropWhile_append3) (rule not_space_brace)
  then have "rstrip (x @ 125 # post) = x @ 125 # rev (dropWhile is_space (rev post))"
    by (simp add: rstrip_def)
  moreover have "set (rev (dropWhile is_space (rev post))) \<subseteq> set post"
    using set_dropWhileD [of _ is_space "rev post"] by auto
  ultimately show ?thesis by blast
qed

lemma take_before_marker:
  assumes "c \<notin> set (take n (pre @ c # r))"
  shows "n \<le> length pre"
proof (rule ccontr)
  assume "\<not> n \<le> length pre"
  then obtain m where m: "n = length pre + Suc m"
    by (metis add_Suc_right less_imp_Suc_add not_le_imp_less)
  have eq: "take n (pre @ c # r) = pre @ c # take m r" unfolding m by simp
  from assms [unfolded eq] show False by simp
qed

lemma fence_start_shape:
  assumes "123 \<notin> set pre"
  shows "\<exists>pre'. sub_fence_start (pre @ 123 # r) = pre' @ 123 # r \<and> set pre' \<subseteq> set pre"
proof (cases "startswith (pre @ 123 # r) (u ''```jso'')")
  case False
  then show ?thesis by (auto simp: sub_fence_start_def)
next
  case True
  have len: "length (u ''```jso'') = 6" by (simp add: u_def)
  have nb: "123 \<notin> set (u ''```jso'')" by (simp add: u_def)
  from True have tk: "take 6 (pre @ 123 # r) = u ''```jso''" by (simp add: startswith_def len)
  with nb have "123 \<notin> set (take 6 (pre @ 123 # r))" by simp
  then have l6: "6 \<le> length pre" by (rule take_before_marker)
  then have d6: "drop 6 (pre @ 123 # r) = drop 6 pre @ 123 # r" by simp
  define p1 where "p1 = (if take 1 (drop 6 pre @ 123 # r) = [110] then drop 7 pre else drop 6 pre)"
  have p1s: "set p1 \<subseteq> set pre"
    unfolding p1_def using set_drop_subset [of 6 pre] set_drop_subset [of 7 pre] by auto
  have "(if take 1 (drop 6 pre @ 123 # r) = [110] then drop 1 (drop 6 pre @ 123 # r)
         else drop 6 pre @ 123 # r) = p1 @ 123 # r"
  proof (cases "drop 6 pre")
    case Nil
    then show ?thesis by (simp add: p1_def)
  next
    case (Cons a as)
    have "drop 7 pre = drop 1 (drop 6 pre)" by simp
    with Cons have "drop 7 pre = as" by simp
    with Cons show ?thesis by (simp add: p1_def)
  qed
  then have "(let q = drop 6 (pre @ 123 # r) in if take 1 q = [110] then drop 1 q else q)
               = p1 @ 123 # r"
    unfolding d6 Let_def .
  with True have "sub_fence_start (pre @ 123 # r) = lstrip (p1 @ 123 # r)"
    by (simp add: sub_fence_start_def)
  with lstrip_shape [of p1 r] p1s show ?thesis by auto
qed


lemma endswith_shape:
  assumes "125 \<notin> set p" and "endswith (x @ 125 # post) p"
  shows "length p \<le> length post"
    and "take (length (x @ 125 # post) - length p) (x @ 125 # post)
           = x @ 125 # take (length post - length p) post"
proof -
  let ?t = "x @ 125 # post"
  from assms(2) have d: "drop (length ?t - length p) ?t = p" by (simp add: endswith_def)
  have "take (length p) (rev ?t) = rev (drop (length ?t - length p) ?t)" by (rule take_rev)
  with d have "take (length p) (rev post @ 125 # rev x) = rev p" by simp
  with assms(1) have "125 \<notin> set (take (length p) (rev post @ 125 # rev x))" by simp
  then have "length p \<le> length (rev post)" by (rule take_before_marker)
  then show l: "length p \<le> length post" by simp
  then show "take (length ?t - length p) ?t = x @ 125 # take (length post - length p) post"
    by (simp add: Suc_diff_le)
qed

lemma fence_end_shape:
  assumes "125 \<notin> set post"
  shows "\<exists>post'. sub_fence_end (x @ 125 # post) = x @ 125 # post' \<and> 125 \<notin> set post'"
proof -
  let ?t = "x @ 125 # post"
  have l3: "length (u ''```'') = 3" and n3: "125 \<notin> set (u ''```'')" by (simp_all add: u_def)
  have l4: "length (u ''```'' @ [10]) = 4" and n4: "125 \<notin> set (u ''```'' @ [10])"
    by (simp_all add: u_def)
  show ?thesis
  proof (cases "endswith ?t (u ''```'')")
    case True
    from endswith_shape(2) [OF n3 True]
    have "take (length ?t - 3) ?t = x @ 125 # take (length post - 3) post" by (simp only: l3)
    with True have e: "sub_fence_end ?t = rstrip (x @ 125 # take (length post - 3) post)"
      by (simp add: sub_fence_end_def)
    from rstrip_shape [of x "take (length post - 3) post"]
    obtain post' where "rstrip (x @ 125 # take (length post - 3) post) = x @ 125 # post'"
      and "set post' \<subseteq> set (take (length post - 3) post)" by blast
    moreover have "set (take (length post - 3) post) \<subseteq> set post" by (rule set_take_subset)
    ultimately show ?thesis using assms e by auto
  next
    case False
    show ?thesis
    proof (cases "endswith ?t (u ''```'' @ [10])")
      case True
      from endswith_shape(2) [OF n4 True]
      have "take (length ?t - 4) ?t = x @ 125 # take (length post - 4) post" by (simp only: l4)
      with True False
      have e: "sub_fence_end ?t = rstrip (x @ 125 # take (length post - 4) post) @ [10]"
        by (simp add: sub_fence_end_def)
      from rstrip_shape [of x "take (length post - 4) post"]
      obtain post' where "rstrip (x @ 125 # take (length post - 4) post) = x @ 125 # post'"
        and "set post' \<subseteq> set (take (length post - 4) post)" by blast
      moreover have "set (take (length post - 4) post) \<subseteq> set post" by (rule set_take_subset)
      ultimately have "sub_fence_end ?t = x @ 125 # (post' @ [10])" and "125 \<notin> set (post' @ [10])"
        using assms e by auto
      then show ?thesis by blast
    next
      case False
      with \<open>\<not> endswith ?t (u ''```'')\<close> assms show ?thesis
        by (auto simp: sub_fence_end_def)
    qed
  qed
qed

lemma find_from_first:
  "c \<notin> set pre \<Longrightarrow> find_from c i (pre @ c # r) = int (i + length pre)"
  by (induction pre arbitrary: i) auto

lemma extract_shape:
  assumes "123 \<notin> set pre" and "125 \<notin> set post"
  shows "(let t = pre @ 123 # body @ 125 # post;
              start_idx = str_find t 123;
              end_idx = str_rfind t 125 + 1
          in if 0 \<le> start_idx \<and> start_idx < end_idx
             then slice t (nat start_idx) (nat end_idx) else t)
         = 123 # body @ [125]"
proof -
  let ?t = "pre @ 123 # body @ 125 # post"
  have f: "str_find ?t 123 = int (length pre)"
    using find_from_first [OF assms(1), of 0] by (simp add: str_find_def)
  have "rev ?t = rev post @ 125 # rev (pre @ 123 # body)" by simp
  moreover have "find_from 125 0 (rev post @ 125 # rev (pre @ 123 # body)) = int (0 + length (rev post))"
    by (rule find_from_first) (use assms(2) in simp)
  ultimately have "find_from 125 0 (rev ?t) = int (length post)" by simp
  then have r: "str_rfind ?t 125 = int (length pre) + 1 + int (length body)"
    by (simp add: str_rfind_def Let_def)
  have "slice ?t (length pre) (length pre + 1 + length body + 1) = 123 # body @ [125]"
    by (simp add: slice_def)
  moreover have "nat (int (length pre) + 1 + int (length body) + 1) = length pre + 1 + length body + 1"
    by simp
  ultimately show ?thesis unfolding Let_def f r by simp
qed

lemma extract_json_isolates:
  assumes "123 \<notin> set pre" and "125 \<notin> set post"
  shows "extract_json (pre @ 123 # body @ 125 # post) = 123 # body @ [125]"
proof -
  from lstrip_shape [of pre "body @ 125 # post"]
  obtain p1 where a: "lstrip (pre @ 123 # body @ 125 # post) = p1 @ 123 # body @ 125 # post"
    and p1: "set p1 \<subseteq> set pre" by blast
  from rstrip_shape [of "p1 @ 123 # body" post]
  obtain q1 where b: "rstrip (p1 @ 123 # body @ 125 # post) = p1 @ 123 # body @ 125 # q1"
    and q1: "set q1 \<subseteq> set post" by auto
  from a b have s: "strip (pre @ 123 # body @ 125 # post) = p1 @ 123 # body @ 125 # q1"
    by (simp add: strip_def)
  from p1 assms(1) have "123 \<notin> set p1" by blast
  from fence_start_shape [OF this, of "body @ 125 # q1"]
  obtain p2 where c: "sub_fence_start (p1 @ 123 # body @ 125 # q1) = p2 @ 123 # body @ 125 # q1"
    and p2: "set p2 \<subseteq> set p1" by blast
  from q1 assms(2) have "125 \<notin> set q1" by blast
  from fence_end_shape [OF this, of "p2 @ 123 # body"]
  obtain q2 where d: "sub_fence_end (p2 @ 123 # body @ 125 # q1) = p2 @ 123 # body @ 125 # q2"
    and q2: "125 \<notin> set q2" by auto
  from p2 \<open>123 \<notin> set p1\<close> have "123 \<notin> set p2" by blast
  from extract_shape [OF this q2, of body] show ?thesis
    unfolding extract_json_def s c d Let_def by simp
qed

text \<open>The two substitutions on some texts, as \<open>re.sub\<close> gives them.\<close>

lemma regex_checks:
  "sub_fence_end (u ''a  '' @ [10] @ u ''```'') = u ''a''"
  "sub_fence_end (u ''a```'' @ [10]) = u ''a'' @ [10]"
  "sub_fence_end (u ''a ``` ```'') = u ''a ```''"
  "sub_fence_end (u ''``````'') = u ''```''"
  "sub_fence_end (u ''a```'' @ [10] @ u ''```'') = u ''a```''"
  "sub_fence_end (u ''ab '' @ [9] @ u ''```'' @ [10]) = u ''ab'' @ [10]"
  "sub_fence_start (u ''```json'') = []"
  "sub_fence_start (u ''```jsonn x'') = u ''n x''"
  "sub_fence_start (u ''```jso {'') = u ''{''"
  "sub_fence_start (u ''```js {'') = u ''```js {''"
  by code_simp+

subsection \<open>Tag hubs\<close>

lemma dd_append_keys:
  "map fst (dd_append d k x) = (if k \<in> set (map fst d) then map fst d else map fst d @ [k])"
  by (induction d) (auto split: if_splits)

lemma dd_append_distinct:
  "distinct (map fst d) \<Longrightarrow> distinct (map fst (dd_append d k x))"
  by (simp add: dd_append_keys)

lemma group_size_dd_append:
  "group_size (dd_append d k x) t = group_size d t + (if t = k then 1 else 0)"
  by (induction d) (auto simp: group_size_def)

lemma group_size_tags:
  "group_size (foldl (group_tag n) d tags) t
     = group_size d t + (if t \<noteq> [] then count_list tags t else 0)"
  by (induction tags arbitrary: d) (auto simp: group_tag_def group_size_dd_append)

lemma distinct_tags:
  "distinct (map fst d) \<Longrightarrow> distinct (map fst (foldl (group_tag n) d tags))"
  by (induction tags arbitrary: d) (auto simp: group_tag_def dd_append_distinct)

lemma group_size_notes:
  "group_size (by_tag (foldl group_note g ns)) t
     = group_size (by_tag g) t + (if t \<noteq> [] then tag_occurrences t ns else 0)"
  by (induction ns arbitrary: g) (auto simp: group_note_def group_size_tags tag_occurrences_def)

lemma distinct_notes:
  "distinct (map fst (by_tag g)) \<Longrightarrow> distinct (map fst (by_tag (foldl group_note g ns)))"
  by (induction ns arbitrary: g) (auto simp: group_note_def distinct_tags)

lemma group_notes_size:
  "group_size (by_tag (group_notes ns)) t = (if t \<noteq> [] then tag_occurrences t ns else 0)"
  using group_size_notes [of "\<lparr>by_subcategory = [], by_tag = []\<rparr>" ns t]
  by (simp add: group_notes_def group_size_def)

lemma group_notes_distinct: "distinct (map fst (by_tag (group_notes ns)))"
  using distinct_notes [of "\<lparr>by_subcategory = [], by_tag = []\<rparr>" ns]
  by (simp add: group_notes_def)

lemma group_size_entry:
  "distinct (map fst d) \<Longrightarrow> (k, xs) \<in> set d \<Longrightarrow> group_size d k = length xs"
  by (simp add: group_size_def)

lemma count_list_distinct:
  "distinct xs \<Longrightarrow> count_list xs t = (if t \<in> set xs then 1 else 0)"
  by (induction xs) auto

lemma occurrences_distinct:
  "list_all (\<lambda>n. distinct (n_tags n)) ns \<Longrightarrow> tag_occurrences t ns = notes_with_tag t ns"
proof (induction ns)
  case Nil
  show ?case by (simp add: tag_occurrences_def notes_with_tag_def)
next
  case (Cons n ns)
  then have d: "distinct (n_tags n)" by simp
  have "count_list (n_tags n) t = (if t \<in> set (n_tags n) then 1 else 0)"
    using d by (rule count_list_distinct)
  with Cons show ?case by (simp add: tag_occurrences_def notes_with_tag_def)
qed


lemma save_moc_cases:
  assumes "save_moc w h f c p m = (out, m')"
  shows "(out = Returned () \<and> p \<and> m' = m) \<or>
         (out = Raised OSError \<and> \<not> p \<and> m' = m) \<or>
         (out = Returned () \<and> \<not> p \<and>
            m' = m\<lparr>moc_files := (moc_files m)(f \<mapsto> c), written := written m @ [(h, f)]\<rparr>)"
  using assms by (auto simp: save_moc_def split: if_splits)

lemma tag_loop_written:
  assumes "tag_loop w r p d m = (out, m')"
  shows "set (written m') \<subseteq> set (written m) \<union>
           (\<lambda>kx. (TagHub (fst kx), tag_hub_file (fst kx)))
             ` set (filter (\<lambda>kx. min_notes_for_tag_moc \<le> length (snd kx)) d)"
  using assms
proof (induction d arbitrary: m)
  case Nil
  then show ?case by simp
next
  case (Cons a d)
  obtain k xs where a: "a = (k, xs)" by (cases a)
  show ?case
  proof (cases "min_notes_for_tag_moc \<le> length xs")
    case False
    with Cons.prems a have "tag_loop w r p d m = (out, m')" by simp
    from Cons.IH [OF this] show ?thesis by auto
  next
    case True
    obtain o1 m1 where sv: "save_moc w (TagHub k) (u ''_MOC-tag-'' @ k @ u ''.md'')
                               (render_tag r k xs) p m = (o1, m1)"
      by (cases "save_moc w (TagHub k) (u ''_MOC-tag-'' @ k @ u ''.md'') (render_tag r k xs) p m")
    from save_moc_cases [OF sv]
    have w1: "set (written m1) \<subseteq> set (written m) \<union> {(TagHub k, tag_hub_file k)}"
      by (auto simp: tag_hub_file_def)
    show ?thesis
    proof (cases o1)
      case (Raised err)
      with Cons.prems a True sv have "m' = m1" by simp
      with w1 a True show ?thesis by auto
    next
      case (Returned x)
      with Cons.prems a True sv have "tag_loop w r p d m1 = (out, m')" by simp
      from Cons.IH [OF this] w1 a True show ?thesis by auto
    qed
  qed
qed

lemma tag_loop_keeps:
  assumes "tag_loop w r p d m = (out, m')"
  shows "set (written m) \<subseteq> set (written m')" and "dom (moc_files m) \<subseteq> dom (moc_files m')"
proof -
  have "set (written m) \<subseteq> set (written m') \<and> dom (moc_files m) \<subseteq> dom (moc_files m')"
    using assms
  proof (induction d arbitrary: m)
    case Nil
    then show ?case by simp
  next
    case (Cons a d)
    obtain k xs where a: "a = (k, xs)" by (cases a)
    show ?case
    proof (cases "min_notes_for_tag_moc \<le> length xs")
      case False
      with Cons.prems a have "tag_loop w r p d m = (out, m')" by simp
      from Cons.IH [OF this] show ?thesis .
    next
      case True
      obtain o1 m1 where sv: "save_moc w (TagHub k) (u ''_MOC-tag-'' @ k @ u ''.md'')
                                 (render_tag r k xs) p m = (o1, m1)"
        by (cases "save_moc w (TagHub k) (u ''_MOC-tag-'' @ k @ u ''.md'') (render_tag r k xs) p m")
      from save_moc_cases [OF sv]
      have w1: "set (written m) \<subseteq> set (written m1) \<and> dom (moc_files m) \<subseteq> dom (moc_files m1)"
        by auto
      show ?thesis
      proof (cases o1)
        case (Raised err)
        with Cons.prems a True sv have "m' = m1" by simp
        with w1 show ?thesis by simp
      next
        case (Returned x)
        with Cons.prems a True sv have "tag_loop w r p d m1 = (out, m')" by simp
        from Cons.IH [OF this] w1 show ?thesis by blast
      qed
    qed
  qed
  then show "set (written m) \<subseteq> set (written m')" and "dom (moc_files m) \<subseteq> dom (moc_files m')"
    by simp_all
qed

lemma tag_loop_complete:
  assumes "tag_loop w r False d m = (Returned (), m')"
    and "(k, xs) \<in> set d" and "min_notes_for_tag_moc \<le> length xs"
  shows "(TagHub k, tag_hub_file k) \<in> set (written m') \<and> tag_hub_file k \<in> dom (moc_files m')"
  using assms
proof (induction d arbitrary: m)
  case Nil
  then show ?case by simp
next
  case (Cons a d)
  obtain k' ys where a: "a = (k', ys)" by (cases a)
  show ?case
  proof (cases "min_notes_for_tag_moc \<le> length ys")
    case False
    with Cons.prems(1) a have tl: "tag_loop w r False d m = (Returned (), m')" by simp
    from False Cons.prems(2,3) a have "(k, xs) \<in> set d" by auto
    from Cons.IH [OF tl this Cons.prems(3)] show ?thesis .
  next
    case True
    obtain o1 m1 where sv: "save_moc w (TagHub k') (u ''_MOC-tag-'' @ k' @ u ''.md'')
                               (render_tag r k' ys) False m = (o1, m1)"
      by (cases "save_moc w (TagHub k') (u ''_MOC-tag-'' @ k' @ u ''.md'') (render_tag r k' ys) False m")
    from Cons.prems(1) a True sv obtain x where o1: "o1 = Returned x"
      and tl: "tag_loop w r False d m1 = (Returned (), m')"
      by (cases o1) auto
    show ?thesis
    proof (cases "(k, xs) \<in> set d")
      case True
      from Cons.IH [OF tl this Cons.prems(3)] show ?thesis .
    next
      case False
      with Cons.prems(2) a have kk: "k' = k" by auto
      from save_moc_cases [OF sv] o1
      have "(TagHub k', tag_hub_file k') \<in> set (written m1) \<and> tag_hub_file k' \<in> dom (moc_files m1)"
        by (auto simp: tag_hub_file_def)
      with tag_loop_keeps [OF tl] kk show ?thesis by blast
    qed
  qed
qed

lemma save_moc_written:
  assumes "save_moc w h f c p m = (o1, m1)"
  shows "written m1 = written m \<or> written m1 = written m @ [(h, f)]"
  using assms by (auto simp: save_moc_def split: if_splits)

lemma save_moc_subcategory:
  assumes "save_moc w (SubcategoryHub k) f c p m = (o1, m1)"
  shows "fst ` set (written m1) \<subseteq> fst ` set (written m) \<union> range SubcategoryHub"
    and "set (written m) \<subseteq> set (written m1)"
proof -
  from save_moc_written [OF assms]
  have "written m1 = written m \<or> written m1 = written m @ [(SubcategoryHub k, f)]" .
  then show "fst ` set (written m1) \<subseteq> fst ` set (written m) \<union> range SubcategoryHub"
  proof
    assume "written m1 = written m"
    then show ?thesis by simp
  next
    assume "written m1 = written m @ [(SubcategoryHub k, f)]"
    then show ?thesis by auto
  qed
  from save_moc_written [OF assms] show "set (written m) \<subseteq> set (written m1)"
  proof
    assume "written m1 = written m"
    then show ?thesis by simp
  next
    assume "written m1 = written m @ [(SubcategoryHub k, f)]"
    then show ?thesis by auto
  qed
qed

lemma subcategory_loop_step:
  assumes "subcategory_loop w r p ((k, xs) # d) m = (out, m')"
  shows "(m' = m \<and> (\<exists>err. out = Raised err)) \<or>
         subcategory_loop w r p d m = (out, m') \<or>
         (\<exists>name content o1 m1.
            save_moc w (SubcategoryHub k) (u ''_MOC-'' @ name @ u ''.md'') content p m = (o1, m1) \<and>
            ((\<exists>err. o1 = Raised err \<and> out = Raised err \<and> m' = m1) \<or>
             (\<exists>x. o1 = Returned x \<and> subcategory_loop w r p d m1 = (out, m'))))"
proof (cases "0 < length xs")
  case False
  with assms show ?thesis by simp
next
  case True
  show ?thesis
  proof (cases "split_char 47 k")
    case Nil
    with assms True show ?thesis by auto
  next
    case c1: (Cons x1 l1)
    show ?thesis
    proof (cases l1)
      case Nil
      with c1 assms True show ?thesis by auto
    next
      case c2: (Cons name l2)
      show ?thesis
      proof (cases "generate_subcategory_moc r k xs")
        case (Inl err)
        with c1 c2 assms True show ?thesis by auto
      next
        case (Inr content)
        obtain o1 m1 where sv: "save_moc w (SubcategoryHub k) (u ''_MOC-'' @ name @ u ''.md'')
                                   content p m = (o1, m1)"
          by (cases "save_moc w (SubcategoryHub k) (u ''_MOC-'' @ name @ u ''.md'') content p m")
        show ?thesis
        proof (cases o1)
          case (Raised err)
          with c1 c2 Inr sv assms True have "out = Raised err \<and> m' = m1" by simp
          with sv Raised show ?thesis by blast
        next
          case (Returned x)
          with c1 c2 Inr sv assms True have "subcategory_loop w r p d m1 = (out, m')" by simp
          with sv Returned show ?thesis by blast
        qed
      qed
    qed
  qed
qed

lemma subcategory_loop_written:
  assumes "subcategory_loop w r p d m = (out, m')"
  shows "fst ` set (written m') \<subseteq> fst ` set (written m) \<union> range SubcategoryHub"
  using assms
proof (induction d arbitrary: m)
  case Nil
  then show ?case by simp
next
  case (Cons a d)
  obtain k xs where a: "a = (k, xs)" by (cases a)
  from Cons.prems a have st: "subcategory_loop w r p ((k, xs) # d) m = (out, m')" by simp
  from subcategory_loop_step [OF st] show ?case
  proof (elim disjE exE conjE)
    assume "m' = m"
    then show ?thesis by simp
  next
    assume "subcategory_loop w r p d m = (out, m')"
    from Cons.IH [OF this] show ?thesis .
  next
    fix name content o1 m1 err
    assume sv: "save_moc w (SubcategoryHub k) (u ''_MOC-'' @ name @ u ''.md'') content p m = (o1, m1)"
      and "m' = m1"
    from save_moc_subcategory(1) [OF sv]
    have "fst ` set (written m1) \<subseteq> fst ` set (written m) \<union> range SubcategoryHub" .
    with \<open>m' = m1\<close> show ?thesis by simp
  next
    fix name content o1 m1 x
    assume sv: "save_moc w (SubcategoryHub k) (u ''_MOC-'' @ name @ u ''.md'') content p m = (o1, m1)"
      and rl: "subcategory_loop w r p d m1 = (out, m')"
    from save_moc_subcategory(1) [OF sv]
    have "fst ` set (written m1) \<subseteq> fst ` set (written m) \<union> range SubcategoryHub" .
    with Cons.IH [OF rl] show ?thesis by blast
  qed
qed

lemma subcategory_loop_keeps:
  assumes "subcategory_loop w r p d m = (out, m')"
  shows "set (written m) \<subseteq> set (written m')"
  using assms
proof (induction d arbitrary: m)
  case Nil
  then show ?case by simp
next
  case (Cons a d)
  obtain k xs where a: "a = (k, xs)" by (cases a)
  from Cons.prems a have st: "subcategory_loop w r p ((k, xs) # d) m = (out, m')" by simp
  from subcategory_loop_step [OF st] show ?case
  proof (elim disjE exE conjE)
    assume "m' = m"
    then show ?thesis by simp
  next
    assume "subcategory_loop w r p d m = (out, m')"
    from Cons.IH [OF this] show ?thesis .
  next
    fix name content o1 m1 err
    assume sv: "save_moc w (SubcategoryHub k) (u ''_MOC-'' @ name @ u ''.md'') content p m = (o1, m1)"
      and "m' = m1"
    from save_moc_subcategory(2) [OF sv] have "set (written m) \<subseteq> set (written m1)" .
    with \<open>m' = m1\<close> show ?thesis by simp
  next
    fix name content o1 m1 x
    assume sv: "save_moc w (SubcategoryHub k) (u ''_MOC-'' @ name @ u ''.md'') content p m = (o1, m1)"
      and rl: "subcategory_loop w r p d m1 = (out, m')"
    from save_moc_subcategory(2) [OF sv] have "set (written m) \<subseteq> set (written m1)" .
    with Cons.IH [OF rl] show ?thesis by blast
  qed
qed

text \<open>Which tag hubs a run of the generator writes.\<close>

lemma main_moc_stages:
  assumes "main_moc w r p (Some ns) m = (out, m')" and "ns \<noteq> []"
  shows "\<exists>o1 m1. save_moc w MainHub (u ''_MOC-index.md'') (render_main r (group_notes ns) ns) p m
                     = (o1, m1) \<and>
           ((\<exists>err. o1 = Raised err \<and> out = Raised err \<and> m' = m1) \<or>
            (\<exists>x o2 m2. o1 = Returned x \<and>
                subcategory_loop w r p (by_subcategory (group_notes ns)) m1 = (o2, m2) \<and>
                ((\<exists>err. o2 = Raised err \<and> out = Raised err \<and> m' = m2) \<or>
                 (\<exists>y. o2 = Returned y \<and>
                      tag_loop w r p (by_tag (group_notes ns)) m2 = (out, m')))))"
proof -
  obtain o1 m1 where sv: "save_moc w MainHub (u ''_MOC-index.md'')
                            (render_main r (group_notes ns) ns) p m = (o1, m1)"
    by (cases "save_moc w MainHub (u ''_MOC-index.md'') (render_main r (group_notes ns) ns) p m")
  show ?thesis
  proof (cases o1)
    case (Raised err)
    with assms sv have "out = Raised err \<and> m' = m1" by (simp add: main_moc_def Let_def)
    with sv Raised show ?thesis by blast
  next
    case r1: (Returned x)
    obtain o2 m2 where sl: "subcategory_loop w r p (by_subcategory (group_notes ns)) m1 = (o2, m2)"
      by (cases "subcategory_loop w r p (by_subcategory (group_notes ns)) m1")
    show ?thesis
    proof (cases o2)
      case (Raised err)
      with assms sv r1 sl have "out = Raised err \<and> m' = m2" by (simp add: main_moc_def Let_def)
      with sv r1 sl Raised show ?thesis by blast
    next
      case (Returned y)
      with assms sv r1 sl have "tag_loop w r p (by_tag (group_notes ns)) m2 = (out, m')"
        by (simp add: main_moc_def Let_def)
      with sv r1 sl Returned show ?thesis by blast
    qed
  qed
qed

lemma save_moc_main:
  assumes "save_moc w MainHub f c p m = (o1, m1)"
  shows "fst ` set (written m1) \<subseteq> fst ` set (written m) \<union> {MainHub}"
proof -
  from save_moc_written [OF assms]
  show ?thesis by auto
qed

lemma min_notes_positive: "0 < min_notes_for_tag_moc"
  by (simp add: min_notes_for_tag_moc_def)

lemma tag_group_entry:
  assumes "(t, xs) \<in> set (by_tag (group_notes ns))"
  shows "length xs = (if t \<noteq> [] then tag_occurrences t ns else 0)"
  using group_size_entry [OF group_notes_distinct assms] group_notes_size [of ns t] by simp

lemma tag_group_exists:
  assumes "t \<noteq> []" and "0 < tag_occurrences t ns"
  shows "\<exists>xs. (t, xs) \<in> set (by_tag (group_notes ns)) \<and> length xs = tag_occurrences t ns"
proof -
  from group_notes_size [of ns t] assms
  have g: "group_size (by_tag (group_notes ns)) t = tag_occurrences t ns" by simp
  with assms(2) obtain xs where m: "map_of (by_tag (group_notes ns)) t = Some xs"
    by (auto simp: group_size_def split: option.splits)
  with g have "length xs = tag_occurrences t ns" by (simp add: group_size_def)
  with map_of_SomeD [OF m] show ?thesis by blast
qed

lemma tag_loop_preview:
  assumes "tag_loop w r True d m = (out, m')"
  shows "m' = m"
  using assms by (induction d) (auto simp: save_moc_def split: if_splits)

lemma tag_hub_needs_threshold:
  assumes "main_moc w r p (Some ns) m = (out, m')" and "written m = []"
    and "TagHub t \<in> fst ` set (written m')"
  shows "t \<noteq> [] \<and> min_notes_for_tag_moc \<le> tag_occurrences t ns \<and> \<not> p"
proof (cases "ns = []")
  case True
  with assms(1) have "m' = m" by (simp add: main_moc_def)
  with assms(2,3) show ?thesis by simp
next
  case False
  from main_moc_stages [OF assms(1) False]
  obtain o1 m1 where sv: "save_moc w MainHub (u ''_MOC-index.md'')
                            (render_main r (group_notes ns) ns) p m = (o1, m1)"
    and rest: "(\<exists>err. o1 = Raised err \<and> out = Raised err \<and> m' = m1) \<or>
            (\<exists>x o2 m2. o1 = Returned x \<and>
                subcategory_loop w r p (by_subcategory (group_notes ns)) m1 = (o2, m2) \<and>
                ((\<exists>err. o2 = Raised err \<and> out = Raised err \<and> m' = m2) \<or>
                 (\<exists>y. o2 = Returned y \<and>
                      tag_loop w r p (by_tag (group_notes ns)) m2 = (out, m'))))"
    by blast
  from save_moc_main [OF sv] assms(2)
  have w1: "fst ` set (written m1) \<subseteq> {MainHub}" by simp
  from rest show ?thesis
  proof (elim disjE exE conjE)
    fix err assume "m' = m1"
    with w1 assms(3) show ?thesis by auto
  next
    fix x o2 m2 err
    assume sl: "subcategory_loop w r p (by_subcategory (group_notes ns)) m1 = (o2, m2)"
      and "m' = m2"
    from subcategory_loop_written [OF sl] w1 \<open>m' = m2\<close> assms(3) show ?thesis by auto
  next
    fix x o2 m2 y
    assume sl: "subcategory_loop w r p (by_subcategory (group_notes ns)) m1 = (o2, m2)"
      and tl: "tag_loop w r p (by_tag (group_notes ns)) m2 = (out, m')"
    from subcategory_loop_written [OF sl] w1
    have w2: "TagHub t \<notin> fst ` set (written m2)" by auto
    from assms(3) obtain f where "(TagHub t, f) \<in> set (written m')" by auto
    with tag_loop_written [OF tl] w2
    obtain kx where kx: "kx \<in> set (by_tag (group_notes ns))"
      and ln: "min_notes_for_tag_moc \<le> length (snd kx)" and k: "fst kx = t"
      by force
    from kx k have "(t, snd kx) \<in> set (by_tag (group_notes ns))" by (cases kx) auto
    from tag_group_entry [OF this] ln min_notes_positive
    have tt: "t \<noteq> [] \<and> min_notes_for_tag_moc \<le> tag_occurrences t ns"
      by (auto split: if_splits)
    have "\<not> p"
    proof
      assume p
      with tl have "tag_loop w r True (by_tag (group_notes ns)) m2 = (out, m')" by simp
      from tag_loop_preview [OF this] w2 assms(3) show False by simp
    qed
    with tt show ?thesis by simp
  qed
qed


lemma tag_hub_at_threshold:
  assumes "main_moc w r False (Some ns) m = (Returned (), m')"
    and "t \<noteq> []" and "min_notes_for_tag_moc \<le> tag_occurrences t ns"
  shows "(TagHub t, tag_hub_file t) \<in> set (written m') \<and> tag_hub_file t \<in> dom (moc_files m')"
proof -
  from assms(3) min_notes_positive have pos: "0 < tag_occurrences t ns" by simp
  have ne: "ns \<noteq> []"
  proof
    assume "ns = []"
    with pos show False by (simp add: tag_occurrences_def)
  qed
  from tag_group_exists [OF assms(2) pos] assms(3)
  obtain xs where xs: "(t, xs) \<in> set (by_tag (group_notes ns))"
    and ln: "min_notes_for_tag_moc \<le> length xs" by auto
  from main_moc_stages [OF assms(1) ne]
  obtain m2 where "tag_loop w r False (by_tag (group_notes ns)) m2 = (Returned (), m')"
    by auto
  from tag_loop_complete [OF this xs ln] show ?thesis .
qed

lemma ex_repeated_tag_run:
  "fst (main_moc (\<lambda>f. True) plain_renderers False (Some notes_repeated_tag) moc_empty)
     = Returned ()"
  "written (snd (main_moc (\<lambda>f. True) plain_renderers False (Some notes_repeated_tag) moc_empty))
     = [(MainHub, u ''_MOC-index.md''),
        (SubcategoryHub (u ''areas/health''), u ''_MOC-health.md''),
        (TagHub (u ''x''), u ''_MOC-tag-x.md'')]"
  "moc_files (snd (main_moc (\<lambda>f. True) plain_renderers False (Some notes_repeated_tag) moc_empty))
     (u ''_MOC-tag-x.md'') = Some (u ''# MOC: #x'')"
  by code_simp+

lemma ex_repeated_tag_counts:
  "notes_with_tag (u ''x'') notes_repeated_tag = 4"
  "tag_occurrences (u ''x'') notes_repeated_tag = 5"
  "length notes_repeated_tag = 4"
  by code_simp+

lemma ex_repeated_tag_group:
  "map_of (by_tag (group_notes notes_repeated_tag)) (u ''x'')
     = Some [tagged (u ''1.md'') [u ''x'', u ''x''], tagged (u ''1.md'') [u ''x'', u ''x''],
             tagged (u ''2.md'') [u ''x''], tagged (u ''3.md'') [u ''x''],
             tagged (u ''4.md'') [u ''x'']]"
  "tag_hub_file (u ''x'') = u ''_MOC-tag-x.md''"
  by code_simp+

text \<open>Five notes with the tag \<open>x\<close>, four of them with the tag \<open>y\<close> as well: only \<open>x\<close>
  receives a hub. An empty tag receives none, in however many notes it is.\<close>

lemma ex_threshold_run:
  "notes_with_tag (u ''x'') notes_xy = 5"
  "notes_with_tag (u ''y'') notes_xy = 4"
  "written (snd (main_moc (\<lambda>f. True) plain_renderers False (Some notes_xy) moc_empty))
     = [(MainHub, u ''_MOC-index.md''),
        (SubcategoryHub (u ''areas/health''), u ''_MOC-health.md''),
        (TagHub (u ''x''), u ''_MOC-tag-x.md'')]"
  "notes_with_tag [] notes_empty_tag = 5"
  "written (snd (main_moc (\<lambda>f. True) plain_renderers False (Some notes_empty_tag) moc_empty))
     = [(MainHub, u ''_MOC-index.md''),
        (SubcategoryHub (u ''areas/health''), u ''_MOC-health.md'')]"
  by code_simp+

subsection \<open>Tags in the index\<close>

lemma normalize_tags_cases:
  "normalize_tags (PList xs) = PList xs"
  "json_loads s = None \<Longrightarrow> normalize_tags (PStr s) = PList [PStr s]"
  "json_loads s = Some v \<Longrightarrow> normalize_tags (PStr s) = v"
  by (simp_all add: normalize_tags_def)

subsection \<open>One file\<close>

lemma in_source_unlink: "\<not> in_source (unlink name d) name"
  by (auto simp: in_source_def unlink_def split: option.splits)

lemma path_part_PStr: "path_part (PStr s) = Inr s"
  by (simp add: path_part_def)

lemma move_file_cases:
  assumes "move_file e st name r (PStr c) (PStr s) = (out, st')"
  shows "(out = Returned True \<and>
          (\<exists>nc. add_frontmatter (lib e) (disk st) name r = Inr nc \<and> st' = moved st name r c s nc))
         \<or> ((\<exists>err. out = Raised err) \<and> processed_files st' = processed_files st
             \<and> results st' = results st \<and> errors st' = errors st \<and> trace st' = trace st
             \<and> dry_run st' = dry_run st \<and> source_dir (disk st') = source_dir (disk st)
             \<and> checkpoint_file (disk st') = checkpoint_file (disk st)
             \<and> log_file (disk st') = log_file (disk st))"
proof (cases "add_frontmatter (lib e) (disk st) name r")
  case (Inl err)
  with assms show ?thesis by (auto simp: move_file_def)
next
  case (Inr nc)
  show ?thesis
  proof (cases "io_ok e (Mkdir c s)")
    case False
    with Inr assms show ?thesis by (auto simp: move_file_def path_part_PStr)
  next
    case mk: True
    show ?thesis
    proof (cases "io_ok e (WriteText c s name)")
      case False
      with mk Inr assms show ?thesis by (auto simp: move_file_def path_part_PStr Let_def)
    next
      case wr: True
      show ?thesis
      proof (cases "io_ok e (Unlink name)")
        case False
        with wr mk Inr assms show ?thesis by (auto simp: move_file_def path_part_PStr Let_def)
      next
        case True
        with wr mk Inr assms show ?thesis
          by (auto simp: move_file_def path_part_PStr Let_def moved_def unlink_def)
      qed
    qed
  qed
qed

lemma valid_truthy: "valid_classification r \<Longrightarrow> truthy l r"
  by (auto simp: valid_classification_def truthy_def split: pyval.splits option.splits)

lemma process_file_None:
  assumes "classify_note e st name = (None, st1)"
  shows "process_file e st name =
           (Returned False, st1\<lparr>errors := errors st1 @ [(name, u ''classification_failed'')]\<rparr>)"
  using assms by (simp add: process_file_def classification_failed_def)

lemma process_file_Some:
  assumes "classify_note e st name = (Some r, st1)"
  obtains d c s subs where "r = PDict d" "map_of d (u ''category'') = Some (PStr c)"
    "map_of d (u ''subcategory'') = Some (PStr s)" "map_of CATEGORIES c = Some subs" "s \<in> set subs"
    "process_file e st name =
       (if dry_run st1
        then (Returned True,
              st1\<lparr>results := results st1 @
                 [\<lparr>r_file = name, r_classification = r,
                   r_moved_to = u ''output/'' @ c @ [47] @ s @ [47], r_dry_run = True\<rparr>]\<rparr>)
        else move_file e st1 name r (PStr c) (PStr s))"
proof -
  from classify_note_Some(1) [OF assms] have v: "valid_classification r" .
  then obtain d c s subs where f: "r = PDict d" "map_of d (u ''category'') = Some (PStr c)"
    "map_of d (u ''subcategory'') = Some (PStr s)" "map_of CATEGORIES c = Some subs" "s \<in> set subs"
    by (rule valid_classification_fields)
  from valid_truthy [OF v] have t: "truthy (lib e) r" .
  have "process_file e st name =
       (if dry_run st1
        then (Returned True,
              st1\<lparr>results := results st1 @
                 [\<lparr>r_file = name, r_classification = r,
                   r_moved_to = u ''output/'' @ c @ [47] @ s @ [47], r_dry_run = True\<rparr>]\<rparr>)
        else move_file e st1 name r (PStr c) (PStr s))"
    using assms t f(1-3) by (simp add: process_file_def subscript_def py_str_def)
  with f show ?thesis by (rule that)
qed

lemma classify_note_fields:
  assumes "classify_note e st name = (r, st1)"
  shows "disk st1 = disk st" "processed_files st1 = processed_files st"
    "dry_run st1 = dry_run st" "results st1 = results st" "errors st1 = errors st"
  using classify_note_frame [OF assms]
  by (metis categorizer.select_convs categorizer.surjective categorizer.update_convs(6))+

lemma moved_fields:
  "processed_files (moved st name r c s nc) = insert name (processed_files st)"
  "target_files (disk (moved st name r c s nc)) = (target_files (disk st))((c, s, name) \<mapsto> nc)"
  "target_dirs (disk (moved st name r c s nc)) = insert (c, s) (target_dirs (disk st))"
  "\<not> in_source (disk (moved st name r c s nc)) name"
  "checkpoint_file (disk (moved st name r c s nc)) = checkpoint_file (disk st)"
  "log_file (disk (moved st name r c s nc)) = log_file (disk st)"
  "dry_run (moved st name r c s nc) = dry_run st"
  "errors (moved st name r c s nc) = errors st"
  "trace (moved st name r c s nc) = trace st"
  by (simp_all add: moved_def unlink_def in_source_def split: option.splits) auto

lemma save_checkpoint_fields:
  "dry_run (save_checkpoint st) = dry_run st"
  "results (save_checkpoint st) = results st"
  "errors (save_checkpoint st) = errors st"
  "processed_files (save_checkpoint st) = processed_files st"
  "trace (save_checkpoint st) = trace st"
  "source_dir (disk (save_checkpoint st)) = source_dir (disk st)"
  "target_dirs (disk (save_checkpoint st)) = target_dirs (disk st)"
  "target_files (disk (save_checkpoint st)) = target_files (disk st)"
  "checkpoint_file (disk (save_checkpoint st)) = Some (processed_files st)"
  "log_file (disk (save_checkpoint st)) = Some (results st, errors st)"
  by (simp_all add: save_checkpoint_def save_results_def)

lemma checkpoint_and_pause_fields:
  "dry_run (checkpoint_and_pause n i st) = dry_run st"
  "results (checkpoint_and_pause n i st) = results st"
  "errors (checkpoint_and_pause n i st) = errors st"
  "processed_files (checkpoint_and_pause n i st) = processed_files st"
  "source_dir (disk (checkpoint_and_pause n i st)) = source_dir (disk st)"
  "target_dirs (disk (checkpoint_and_pause n i st)) = target_dirs (disk st)"
  "target_files (disk (checkpoint_and_pause n i st)) = target_files (disk st)"
  by (simp_all add: checkpoint_and_pause_def Let_def save_checkpoint_fields)

lemma read_text_source:
  "source_dir d' = source_dir d \<Longrightarrow> read_text d' name = read_text d name"
  by (simp add: read_text_def)

subsection \<open>The retry loop\<close>




text \<open>How a classification comes to fail.\<close>

definition dummy :: nat where "dummy = 0"

lemma classify_attempts_service_error:
  "service e tr p = RaisesOther \<Longrightarrow> classify_attempts e p (Suc k) tr = (None, tr @ [ApiCall p])"
  by simp

lemma classify_attempts_retry:
  assumes "retryable_failure e p tr"
  shows "classify_attempts e p (Suc (Suc k)) tr
           = classify_attempts e p (Suc k) (tr @ [ApiCall p, Sleep retry_delay])"
    and "classify_attempts e p (Suc 0) tr = (None, tr @ [ApiCall p])"
  using assms
  by (auto simp: retryable_failure_def Let_def split: reply.splits option.splits sum.splits bool.splits)

lemma classify_attempts_exhausted:
  assumes "\<And>tr'. retryable_failure e p tr'"
  shows "classify_attempts e p retry_attempts tr
           = (None, tr @ [ApiCall p, Sleep retry_delay, ApiCall p, Sleep retry_delay, ApiCall p])"
  unfolding retry_attempts_def numeral_3_eq_3
  by (simp only: classify_attempts_retry [OF assms] append_assoc append_Cons append_Nil)

subsection \<open>The example inputs evaluated\<close>

lemma ex_parse_valid: "parse_response reply_valid = Some (PDict example_minimal)"
  by code_simp

lemma ex_validate_valid: "validate_result (PDict example_minimal) = Inr True"
  by code_simp

lemma ex_parse_invalid: "parse_response reply_invalid = Some (PDict example_invalid)"
  by code_simp

lemma ex_validate_invalid: "validate_result (PDict example_invalid) = Inr False"
  by code_simp

lemma ex_not_valid: "\<not> valid_classification (PDict example_invalid)"
  using ex_validate_invalid validate_result_valid [of "PDict example_invalid"] by simp

lemma env1_fields:
  "service (env1 answer) tr p = Text answer" "lib (env1 answer) = lib1" "io_ok (env1 answer) op"
  by (simp_all add: env1_def)

lemma env1_valid_attempts:
  "classify_attempts (env1 reply_valid) p retry_attempts tr
     = (Some (PDict example_minimal), tr @ [ApiCall p])"
  by (simp add: retry_attempts_def numeral_3_eq_3 env1_fields ex_parse_valid ex_validate_valid)

lemma env1_invalid_retryable: "retryable_failure (env1 reply_invalid) p tr"
  by (simp add: retryable_failure_def env1_fields ex_parse_invalid ex_validate_invalid)

lemma env1_invalid_attempts:
  "classify_attempts (env1 reply_invalid) p retry_attempts tr = (None, tr @ failed_trace p)"
  unfolding failed_trace_def
  by (rule classify_attempts_exhausted) (rule env1_invalid_retryable)

lemma env1_valid_classify_note:
  "read_text (disk st) name = Some content \<Longrightarrow>
   classify_note (env1 reply_valid) st name
     = (Some (PDict example_minimal), st\<lparr>trace := trace st @ [ApiCall (build_prompt name content)]\<rparr>)"
  by (simp add: classify_note_def env1_valid_attempts)

lemma env1_invalid_classify_note:
  "read_text (disk st) name = Some content \<Longrightarrow>
   classify_note (env1 reply_invalid) st name
     = (None, st\<lparr>trace := trace st @ failed_trace (build_prompt name content)\<rparr>)"
  by (simp add: classify_note_def env1_invalid_attempts)

lemma init_plain:
  "checkpoint_file d = None \<Longrightarrow>
   init dry d tr = \<lparr>dry_run = dry, results = [], errors = [], processed_files = {}, disk = d,
                    trace = tr\<rparr>"
  by (simp add: init_def load_checkpoint_def)

lemma disk_two_reads:
  "read_text disk_two (u ''a.md'') = Some (u ''alpha'')"
  "read_text disk_two (u ''b.md'') = Some (u ''beta'')"
  "checkpoint_file disk_two = None"
  by (code_simp, code_simp, simp add: disk_two_def)

subsection \<open>What is accepted and what is written\<close>

lemma classify_attempts_uncoerced:
  "classify_attempts e p k tr = (Some r, tr') \<Longrightarrow>
   \<exists>tr0 t. service e tr0 p = Text t \<and> parse_response t = Some r"
proof (induction k arbitrary: tr)
  case 0
  then show ?case by simp
next
  case (Suc k)
  show ?case
  proof (cases "service e tr p")
    case RaisesOther
    with Suc.prems show ?thesis by simp
  next
    case RaisesValueError
    with Suc.prems Suc.IH show ?thesis by (auto simp: Let_def split: if_splits)
  next
    case (Text t)
    show ?thesis
    proof (cases "parse_response t")
      case None
      with Text Suc.prems Suc.IH show ?thesis by (auto simp: Let_def split: if_splits)
    next
      case (Some result)
      show ?thesis
      proof (cases "validate_result result")
        case (Inl err)
        with Text Some Suc.prems show ?thesis by simp
      next
        case (Inr b)
        show ?thesis
        proof (cases b)
          case True
          with Inr Text Some Suc.prems have "r = result" by simp
          with Text Some show ?thesis by blast
        next
          case False
          with Inr Text Some Suc.prems Suc.IH show ?thesis
            by (auto simp: Let_def split: if_splits)
        qed
      qed
    qed
  qed
qed

lemma classify_note_uncoerced:
  assumes "classify_note e st name = (Some r, st1)"
  shows "\<exists>tr0 t content. read_text (disk st) name = Some content \<and>
           service e tr0 (build_prompt name content) = Text t \<and> parse_response t = Some r"
  using assms unfolding classify_note_def
  by (auto split: option.splits prod.splits dest: classify_attempts_uncoerced)

lemma move_file_target:
  assumes "move_file e st name r (PStr c) (PStr s) = (out, st')"
  shows "target_files (disk st') = target_files (disk st) \<or>
         (\<exists>nc. add_frontmatter (lib e) (disk st) name r = Inr nc \<and>
               target_files (disk st') = (target_files (disk st))((c, s, name) \<mapsto> nc))"
proof (cases "add_frontmatter (lib e) (disk st) name r")
  case (Inl err)
  with assms show ?thesis by (auto simp: move_file_def)
next
  case (Inr nc)
  show ?thesis
  proof (cases "io_ok e (Mkdir c s)")
    case False
    with Inr assms show ?thesis by (auto simp: move_file_def path_part_PStr)
  next
    case mk: True
    show ?thesis
    proof (cases "io_ok e (WriteText c s name)")
      case False
      with mk Inr assms show ?thesis by (auto simp: move_file_def path_part_PStr Let_def)
    next
      case wr: True
      with mk Inr assms show ?thesis
        by (cases "io_ok e (Unlink name)")
           (auto simp: move_file_def path_part_PStr Let_def unlink_def)
    qed
  qed
qed

lemma process_file_target:
  assumes "process_file e st name = (out, st')"
  shows "target_files (disk st') = target_files (disk st) \<or>
         (\<exists>r d c s subs nc. r = PDict d \<and> map_of d (u ''category'') = Some (PStr c) \<and>
             map_of d (u ''subcategory'') = Some (PStr s) \<and>
             map_of CATEGORIES c = Some subs \<and> s \<in> set subs \<and>
             add_frontmatter (lib e) (disk st) name r = Inr nc \<and>
             target_files (disk st') = (target_files (disk st))((c, s, name) \<mapsto> nc))"
proof -
  obtain ro st1 where cn: "classify_note e st name = (ro, st1)" by (cases "classify_note e st name")
  note f = classify_note_fields [OF cn]
  show ?thesis
  proof (cases ro)
    case None
    with cn process_file_None [of e st name st1] assms f(1) show ?thesis by auto
  next
    case (Some r)
    from cn Some have cs: "classify_note e st name = (Some r, st1)" by simp
    from cs obtain d c s subs where fl: "r = PDict d" "map_of d (u ''category'') = Some (PStr c)"
      "map_of d (u ''subcategory'') = Some (PStr s)" "map_of CATEGORIES c = Some subs" "s \<in> set subs"
      and pf: "process_file e st name =
        (if dry_run st1
         then (Returned True,
               st1\<lparr>results := results st1 @
                  [\<lparr>r_file = name, r_classification = r,
                    r_moved_to = u ''output/'' @ c @ [47] @ s @ [47], r_dry_run = True\<rparr>]\<rparr>)
         else move_file e st1 name r (PStr c) (PStr s))"
      by (rule process_file_Some)
    show ?thesis
    proof (cases "dry_run st1")
      case True
      with pf assms f(1) show ?thesis by auto
    next
      case False
      with pf assms have "move_file e st1 name r (PStr c) (PStr s) = (out, st')" by simp
      from move_file_target [OF this] show ?thesis
      proof
        assume "target_files (disk st') = target_files (disk st1)"
        with f(1) show ?thesis by simp
      next
        assume "\<exists>nc. add_frontmatter (lib e) (disk st1) name r = Inr nc \<and>
               target_files (disk st') = (target_files (disk st1))((c, s, name) \<mapsto> nc)"
        then obtain nc where "add_frontmatter (lib e) (disk st) name r = Inr nc"
          and "target_files (disk st') = (target_files (disk st))((c, s, name) \<mapsto> nc)"
          using f(1) by auto
        with fl show ?thesis by blast
      qed
    qed
  qed
qed

lemma ex_minimal_lookup:
  "map_of example_minimal (u ''category'') = Some (PStr (u ''areas''))"
  "map_of example_minimal (u ''subcategory'') = Some (PStr (u ''health''))"
  by code_simp+

lemma ex_minimal_valid: "valid_classification (PDict example_minimal)"
  using ex_validate_valid by (simp add: validate_result_valid)

lemma env1_valid_process_file:
  assumes "read_text (disk st) name = Some content" and "\<not> dry_run st"
    and "add_frontmatter lib1 (disk st) name (PDict example_minimal) = Inr nc"
  shows "process_file (env1 reply_valid) st name
           = (Returned True,
              moved (st\<lparr>trace := trace st @ [ApiCall (build_prompt name content)]\<rparr>) name
                (PDict example_minimal) (u ''areas'') (u ''health'') nc)"
proof -
  let ?st1 = "st\<lparr>trace := trace st @ [ApiCall (build_prompt name content)]\<rparr>"
  have cn: "classify_note (env1 reply_valid) st name = (Some (PDict example_minimal), ?st1)"
    by (rule env1_valid_classify_note) (rule assms)
  have t: "truthy lib1 (PDict example_minimal)"
    by (rule valid_truthy) (rule ex_minimal_valid)
  have mv: "move_file (env1 reply_valid) ?st1 name (PDict example_minimal)
              (PStr (u ''areas'')) (PStr (u ''health''))
            = (Returned True, moved ?st1 name (PDict example_minimal) (u ''areas'') (u ''health'') nc)"
    using assms(3)
    by (simp add: move_file_def env1_fields path_part_PStr Let_def moved_def unlink_def)
  show ?thesis
    using assms(2) t
    by (simp add: process_file_def cn env1_fields subscript_def ex_minimal_lookup mv)
qed

lemma disk_two_alpha:
  "add_frontmatter lib1 disk_two (u ''a.md'') (PDict example_minimal) = Inr doc_alpha_moved"
  by code_simp


lemma ex_process_alpha:
  "process_file (env1 reply_valid) (init False disk_two []) (u ''a.md'')
     = (Returned True,
        moved ((init False disk_two [])\<lparr>trace := [ApiCall (build_prompt (u ''a.md'') (u ''alpha''))]\<rparr>)
          (u ''a.md'') (PDict example_minimal) (u ''areas'') (u ''health'') doc_alpha_moved)"
proof -
  have S: "init False disk_two [] = \<lparr>dry_run = False, results = [], errors = [],
             processed_files = {}, disk = disk_two, trace = []\<rparr>"
    by (rule init_plain) (rule disk_two_reads)
  from env1_valid_process_file [of "init False disk_two []" "u ''a.md''" "u ''alpha''" doc_alpha_moved]
    disk_two_reads(1) disk_two_alpha
  show ?thesis by (simp add: S)
qed

text \<open>A result whose category is a list makes the validation raise \<open>TypeError\<close>, which
  the retry loop does not catch: the document fails after one call.\<close>

lemma ex_parse_unhashable: "parse_response reply_unhashable = Some (PDict example_unhashable)"
  by code_simp

lemma ex_validate_unhashable: "validate_result (PDict example_unhashable) = Inl TypeError"
  by code_simp

lemma ex_unhashable_not_valid: "\<not> valid_classification (PDict example_unhashable)"
  by code_simp

lemma env1_unhashable_attempts:
  "classify_attempts (env1 reply_unhashable) p retry_attempts tr = (None, tr @ [ApiCall p])"
  by (simp add: retry_attempts_def numeral_3_eq_3 env1_fields ex_parse_unhashable
        ex_validate_unhashable)

lemma env1_unhashable_classify_note:
  "read_text (disk st) name = Some content \<Longrightarrow>
   classify_note (env1 reply_unhashable) st name
     = (None, st\<lparr>trace := trace st @ [ApiCall (build_prompt name content)]\<rparr>)"
  by (simp add: classify_note_def env1_unhashable_attempts)

subsection \<open>Documents that have a header already\<close>








subsection \<open>Dry runs\<close>










subsection \<open>The checkpoint\<close>












text \<open>
  Claim C4. Every classification result that is accepted and written into a document
  header has a category of the fixed set and a subcategory of that category's set; a
  result violating this is rejected, which triggers a retry, and it is never coerced
  or written. The code rejects every such result and writes none (lemmas
  \<open>classify_note_Some\<close>, \<open>classify_note_uncoerced\<close>, \<open>process_file_target\<close>),
  but not every rejection triggers a retry. When the service answers
  \<open>{"category": ["areas"], "subcategory": "health"}\<close>, the test
  \<open>category not in CATEGORIES\<close> of \<open>_validate_result\<close> raises \<open>TypeError\<close>, the
  handler of the retry loop catches only \<open>JSONDecodeError\<close> and \<open>ValueError\<close>, and the
  document fails after a single call although \<open>retry_attempts\<close> is 3: no second
  attempt, no delay. An invalid result that validation answers with \<open>False\<close>, such
  as the subcategory \<open>cooking\<close> under \<open>areas\<close>, is tried three times with two delays.
\<close>

theorem unhashable_category_is_rejected_without_retry:
  "service (env1 reply_unhashable) [] (build_prompt (u ''a.md'') (u ''alpha'')) = Text reply_unhashable \<and>
   parse_response reply_unhashable = Some (PDict example_unhashable) \<and>
   \<not> valid_classification (PDict example_unhashable) \<and>
   validate_result (PDict example_unhashable) = Inl TypeError \<and>
   retry_attempts = 3 \<and>
   classify_note (env1 reply_unhashable) (init False disk_two []) (u ''a.md'')
     = (None, (init False disk_two [])\<lparr>trace := [ApiCall (build_prompt (u ''a.md'') (u ''alpha''))]\<rparr>) \<and>
   process_file (env1 reply_unhashable) (init False disk_two []) (u ''a.md'')
     = (Returned False,
        (init False disk_two [])
          \<lparr>trace := [ApiCall (build_prompt (u ''a.md'') (u ''alpha''))],
           errors := [(u ''a.md'', u ''classification_failed'')]\<rparr>) \<and>
   validate_result (PDict example_invalid) = Inr False \<and>
   classify_note (env1 reply_invalid) (init False disk_two []) (u ''a.md'')
     = (None, (init False disk_two [])
          \<lparr>trace := [ApiCall (build_prompt (u ''a.md'') (u ''alpha'')), Sleep retry_delay,
                     ApiCall (build_prompt (u ''a.md'') (u ''alpha'')), Sleep retry_delay,
                     ApiCall (build_prompt (u ''a.md'') (u ''alpha''))]\<rparr>)"
proof -
  let ?S = "init False disk_two []"
  have S: "?S = \<lparr>dry_run = False, results = [], errors = [],
             processed_files = {}, disk = disk_two, trace = []\<rparr>"
    by (rule init_plain) (rule disk_two_reads)
  have rd: "read_text (disk ?S) (u ''a.md'') = Some (u ''alpha'')"
    unfolding S using disk_two_reads(1) by simp
  have tr: "trace ?S = []" "errors ?S = []" unfolding S by simp_all
  have cn: "classify_note (env1 reply_unhashable) ?S (u ''a.md'')
     = (None, ?S\<lparr>trace := [ApiCall (build_prompt (u ''a.md'') (u ''alpha''))]\<rparr>)"
    using env1_unhashable_classify_note [OF rd] tr by simp
  have pf: "process_file (env1 reply_unhashable) ?S (u ''a.md'')
     = (Returned False,
        ?S\<lparr>trace := [ApiCall (build_prompt (u ''a.md'') (u ''alpha''))],
           errors := [(u ''a.md'', u ''classification_failed'')]\<rparr>)"
    using process_file_None [OF cn] tr by (simp add: S)
  have ci: "classify_note (env1 reply_invalid) ?S (u ''a.md'')
     = (None, ?S\<lparr>trace := [ApiCall (build_prompt (u ''a.md'') (u ''alpha'')), Sleep retry_delay,
                     ApiCall (build_prompt (u ''a.md'') (u ''alpha'')), Sleep retry_delay,
                     ApiCall (build_prompt (u ''a.md'') (u ''alpha''))]\<rparr>)"
    using env1_invalid_classify_note [OF rd] tr by (simp add: failed_trace_def)
  show ?thesis
    using cn pf ci ex_parse_unhashable ex_unhashable_not_valid ex_validate_unhashable
      ex_validate_invalid
    by (simp only: env1_fields retry_attempts_def simp_thms)
qed

text \<open>
  Claim C5. When the classification of a document fails (\<open>classify_note\<close> gives \<open>None\<close>:
  after the last of the attempts with their delay, or at once on another exception, see
  \<open>classify_attempts_exhausted\<close> and \<open>classify_attempts_service_error\<close>),
  \<open>process_file\<close> returns normally with one more entry in \<open>errors\<close>, for this
  document, and the loop of the run goes on with the files that are left.
\<close>

theorem classification_failure_is_recorded_and_skipped:
  assumes "fst (classify_note e st name) = None"
  shows "\<exists>tr. process_file e st name
                = (Returned False,
                   st\<lparr>trace := tr, errors := errors st @ [(name, u ''classification_failed'')]\<rparr>) \<and>
              run_loop e n i (name # files) st
                = run_loop e n (Suc i) files
                    (checkpoint_and_pause n i
                       (st\<lparr>trace := tr,
                           errors := errors st @ [(name, u ''classification_failed'')]\<rparr>))"
proof -
  obtain st1 where cn: "classify_note e st name = (None, st1)"
    using assms by (cases "classify_note e st name") auto
  from classify_note_frame [OF cn] have st1: "st1 = st\<lparr>trace := trace st1\<rparr>" .
  have "st1\<lparr>errors := errors st1 @ [(name, u ''classification_failed'')]\<rparr>
          = st\<lparr>trace := trace st1, errors := errors st @ [(name, u ''classification_failed'')]\<rparr>"
    by (subst st1, subst (2) st1) simp
  with process_file_None [OF cn]
  have pf: "process_file e st name
              = (Returned False,
                 st\<lparr>trace := trace st1, errors := errors st @ [(name, u ''classification_failed'')]\<rparr>)"
    by simp
  then show ?thesis by auto
qed

theorem classification_failure_is_recorded_and_skipped_witness:
  "fst (classify_note (env1 reply_invalid) (init False disk_two []) (u ''a.md'')) = None \<and>
   fst (run_loop (env1 reply_invalid) 2 1 [u ''a.md'', u ''b.md''] (init False disk_two []))
     = Returned () \<and>
   errors (snd (run_loop (env1 reply_invalid) 2 1 [u ''a.md'', u ''b.md'']
                  (init False disk_two [])))
     = [(u ''a.md'', u ''classification_failed''), (u ''b.md'', u ''classification_failed'')]"
proof -
  let ?E = "env1 reply_invalid" and ?S = "init False disk_two []"
  have S: "?S = \<lparr>dry_run = False, results = [], errors = [], processed_files = {},
                  disk = disk_two, trace = []\<rparr>"
    by (rule init_plain) (rule disk_two_reads)
  have c1: "fst (classify_note ?E ?S (u ''a.md'')) = None"
    using env1_invalid_classify_note [of ?S "u ''a.md''" "u ''alpha''"] disk_two_reads
    by (simp add: S)
  from classification_failure_is_recorded_and_skipped [OF c1, of 2 "Suc 0" "[u ''b.md'']"]
  obtain tr where r1: "run_loop ?E 2 (Suc 0) (u ''a.md'' # [u ''b.md'']) ?S
      = run_loop ?E 2 (Suc (Suc 0)) [u ''b.md'']
          (checkpoint_and_pause 2 (Suc 0)
             (?S\<lparr>trace := tr, errors := errors ?S @ [(u ''a.md'', u ''classification_failed'')]\<rparr>))"
    by blast
  define S1 where "S1 = checkpoint_and_pause 2 (Suc 0)
             (?S\<lparr>trace := tr, errors := errors ?S @ [(u ''a.md'', u ''classification_failed'')]\<rparr>)"
  have e1: "errors S1 = [(u ''a.md'', u ''classification_failed'')]"
    unfolding S1_def by (simp add: checkpoint_and_pause_fields S)
  have "source_dir (disk S1) = source_dir disk_two"
    unfolding S1_def by (simp add: checkpoint_and_pause_fields S)
  from read_text_source [OF this] disk_two_reads(2)
  have rd: "read_text (disk S1) (u ''b.md'') = Some (u ''beta'')" by simp
  have c2: "fst (classify_note ?E S1 (u ''b.md'')) = None"
    using env1_invalid_classify_note [OF rd] by simp
  from classification_failure_is_recorded_and_skipped [OF c2, of 2 "Suc (Suc 0)" "[]"]
  obtain tr2 where r2: "run_loop ?E 2 (Suc (Suc 0)) [u ''b.md''] S1
      = run_loop ?E 2 (Suc (Suc (Suc 0))) []
          (checkpoint_and_pause 2 (Suc (Suc 0))
             (S1\<lparr>trace := tr2, errors := errors S1 @ [(u ''b.md'', u ''classification_failed'')]\<rparr>))"
    by blast
  from r1 r2 have "run_loop ?E 2 (Suc 0) [u ''a.md'', u ''b.md''] ?S
      = (Returned (), save_checkpoint (checkpoint_and_pause 2 (Suc (Suc 0))
             (S1\<lparr>trace := tr2, errors := errors S1 @ [(u ''b.md'', u ''classification_failed'')]\<rparr>)))"
    unfolding S1_def by (simp only: run_loop.simps)
  with c1 e1 show ?thesis
    by (simp add: save_checkpoint_fields checkpoint_and_pause_fields)
qed

text \<open>
  Claim C6. When a document is processed (not in a dry run), its name is in
  \<open>processed_files\<close> afterwards only if the call returned \<open>True\<close>, the content with its
  header is in the target file \<open>output/<category>/<subcategory>/<name>\<close> and the source
  directory no longer has the document; when the call fails before that, by a failed
  classification or by an exception of a file operation, \<open>processed_files\<close> is as before.
\<close>

theorem checkpoint_only_after_move:
  assumes "\<not> dry_run st" and "name \<notin> processed_files st"
    and "process_file e st name = (out, st')"
  shows "(name \<in> processed_files st' \<longrightarrow>
           out = Returned True \<and>
           (\<exists>r c s nc. valid_classification r \<and>
               add_frontmatter (lib e) (disk st) name r = Inr nc \<and>
               target_files (disk st') (c, s, name) = Some nc) \<and>
           \<not> in_source (disk st') name) \<and>
         (out \<noteq> Returned True \<longrightarrow> processed_files st' = processed_files st)"
proof -
  obtain ro st1 where cn: "classify_note e st name = (ro, st1)" by (cases "classify_note e st name")
  note f = classify_note_fields [OF cn]
  show ?thesis
  proof (cases ro)
    case None
    with cn process_file_None [of e st name st1] assms(3)
    have "out = Returned False" and "processed_files st' = processed_files st1" by auto
    with f(2) assms(2) show ?thesis by simp
  next
    case (Some r)
    from cn Some have cs: "classify_note e st name = (Some r, st1)" by simp
    from classify_note_Some(1) [OF cs] have v: "valid_classification r" .
    from cs obtain d c s subs where
      pf: "process_file e st name =
        (if dry_run st1
         then (Returned True,
               st1\<lparr>results := results st1 @
                  [\<lparr>r_file = name, r_classification = r,
                    r_moved_to = u ''output/'' @ c @ [47] @ s @ [47], r_dry_run = True\<rparr>]\<rparr>)
         else move_file e st1 name r (PStr c) (PStr s))"
      by (rule process_file_Some)
    with assms(1,3) f(3) have mv: "move_file e st1 name r (PStr c) (PStr s) = (out, st')" by simp
    from move_file_cases [OF mv] show ?thesis
    proof
      assume "out = Returned True \<and>
          (\<exists>nc. add_frontmatter (lib e) (disk st1) name r = Inr nc \<and> st' = moved st1 name r c s nc)"
      then obtain nc where o: "out = Returned True"
        and a: "add_frontmatter (lib e) (disk st1) name r = Inr nc"
        and s': "st' = moved st1 name r c s nc" by blast
      from a f(1) have a': "add_frontmatter (lib e) (disk st) name r = Inr nc" by simp
      have "target_files (disk st') (c, s, name) = Some nc" unfolding s' by (simp add: moved_fields)
      with v a' have "\<exists>r c s nc. valid_classification r \<and>
               add_frontmatter (lib e) (disk st) name r = Inr nc \<and>
               target_files (disk st') (c, s, name) = Some nc" by blast
      moreover have "\<not> in_source (disk st') name" unfolding s' by (rule moved_fields)
      ultimately show ?thesis using o by simp
    next
      assume "(\<exists>err. out = Raised err) \<and> processed_files st' = processed_files st1
             \<and> results st' = results st1 \<and> errors st' = errors st1 \<and> trace st' = trace st1
             \<and> dry_run st' = dry_run st1 \<and> source_dir (disk st') = source_dir (disk st1)
             \<and> checkpoint_file (disk st') = checkpoint_file (disk st1)
             \<and> log_file (disk st') = log_file (disk st1)"
      with f(2) assms(2) show ?thesis by auto
    qed
  qed
qed

theorem checkpoint_only_after_move_witness:
  "\<not> dry_run (init False disk_two []) \<and>
   u ''a.md'' \<notin> processed_files (init False disk_two []) \<and>
   fst (process_file (env1 reply_valid) (init False disk_two []) (u ''a.md'')) = Returned True \<and>
   u ''a.md'' \<in> processed_files
      (snd (process_file (env1 reply_valid) (init False disk_two []) (u ''a.md''))) \<and>
   target_files (disk (snd (process_file (env1 reply_valid) (init False disk_two []) (u ''a.md''))))
      (u ''areas'', u ''health'', u ''a.md'') = Some doc_alpha_moved \<and>
   \<not> in_source (disk (snd (process_file (env1 reply_valid) (init False disk_two []) (u ''a.md''))))
      (u ''a.md'')"
proof -
  let ?S = "init False disk_two []"
  let ?P = "process_file (env1 reply_valid) ?S (u ''a.md'')"
  have S: "?S = \<lparr>dry_run = False, results = [], errors = [],
             processed_files = {}, disk = disk_two, trace = []\<rparr>"
    by (rule init_plain) (rule disk_two_reads)
  have h1: "\<not> dry_run ?S" and h2: "u ''a.md'' \<notin> processed_files ?S" by (simp_all add: S)
  have h3: "?P = (fst ?P, snd ?P)" by simp
  from checkpoint_only_after_move [OF h1 h2 h3] h1 h2
  show ?thesis by (simp add: ex_process_alpha moved_fields)
qed

text \<open>
  Claim C7, as amended. When the answer of the service is a JSON object with text
  before and after it (code fences, prose), and the text before holds no \<open>{\<close> and the
  text after holds no \<open>}\<close>, then what is decoded is exactly the object: parsing the
  answer gives what \<open>json.loads\<close> gives on the object alone.
\<close>

theorem fenced_json_with_prose_is_parsed:
  assumes "123 \<notin> set pre" and "125 \<notin> set post"
  shows "parse_response (pre @ [123] @ body @ [125] @ post) = json_loads ([123] @ body @ [125])"
  using extract_json_isolates [OF assms, of body] by (simp add: parse_response_def)

theorem fenced_json_with_prose_is_parsed_witness:
  "123 \<notin> set reply_pre \<and> 125 \<notin> set reply_post \<and>
   parse_response (reply_pre @ [123] @ reply_body @ [125] @ reply_post) = Some (PDict example_full)"
proof -
  have h1: "123 \<notin> set reply_pre" by code_simp
  have h2: "125 \<notin> set reply_post" by code_simp
  have j: "json_loads ([123] @ reply_body @ [125]) = Some (PDict example_full)" by code_simp
  from fenced_json_with_prose_is_parsed [OF h1 h2, of reply_body] h1 h2 j
  show ?thesis by simp
qed

text \<open>
  Claim C7 as stated fails for prose that holds a brace: the payload is cut from the
  first \<open>{\<close> to the last \<open>}\<close> of the whole answer, so a \<open>{\<close> in the prose before the
  object (or a \<open>}\<close> after it) ends up in the text handed to the decoder.
\<close>

theorem braces_in_prose_break_parsing_counterexample:
  "json_loads ([123] @ reply_body @ [125]) = Some (PDict example_full) \<and>
   reply_braces = u ''Result {draft}:'' @ [10] @ u ''```json'' @ [10]
                  @ [123] @ reply_body @ [125] @ [10] @ u ''```'' \<and>
   parse_response reply_braces = None"
proof -
  have "json_loads ([123] @ reply_body @ [125]) = Some (PDict example_full)" by code_simp
  moreover have "parse_response reply_braces = None" by code_simp
  ultimately show ?thesis by (simp add: reply_braces_def)
qed

text \<open>
  Claim C8. A tag that appears in exactly one note less than the configured minimum
  \<open>min_notes_for_tag_moc\<close> never receives a tag hub file, and a tag that appears in
  exactly that many notes receives one. \<open>group_notes\<close> appends a note to the group of
  a tag once for every occurrence of the tag in the tag list of the note, and \<open>main\<close>
  compares the length of the group with the minimum, so the code counts occurrences,
  not notes (lemmas \<open>tag_hub_needs_threshold\<close>, \<open>tag_hub_at_threshold\<close>); the two
  agree when no note repeats a tag (lemma \<open>occurrences_distinct\<close>). For the index of
  four notes with the tag lists \<open>["x", "x"]\<close>, \<open>["x"]\<close>, \<open>["x"]\<close>, \<open>["x"]\<close> the tag
  \<open>x\<close> appears in four notes, one less than the minimum of five, and the run writes
  the hub \<open>_MOC-tag-x.md\<close>, whose group lists the first note twice.
\<close>

theorem repeated_tag_reaches_threshold_early:
  "min_notes_for_tag_moc = 5 \<and>
   length notes_repeated_tag = 4 \<and>
   notes_with_tag (u ''x'') notes_repeated_tag = 4 \<and>
   map_of (by_tag (group_notes notes_repeated_tag)) (u ''x'')
     = Some [tagged (u ''1.md'') [u ''x'', u ''x''], tagged (u ''1.md'') [u ''x'', u ''x''],
             tagged (u ''2.md'') [u ''x''], tagged (u ''3.md'') [u ''x''],
             tagged (u ''4.md'') [u ''x'']] \<and>
   fst (main_moc (\<lambda>f. True) plain_renderers False (Some notes_repeated_tag) moc_empty)
     = Returned () \<and>
   (TagHub (u ''x''), tag_hub_file (u ''x''))
     \<in> set (written (snd (main_moc (\<lambda>f. True) plain_renderers False
                                 (Some notes_repeated_tag) moc_empty))) \<and>
   moc_files (snd (main_moc (\<lambda>f. True) plain_renderers False (Some notes_repeated_tag) moc_empty))
     (tag_hub_file (u ''x'')) = Some (u ''# MOC: #x'')"
  unfolding ex_repeated_tag_group ex_repeated_tag_run ex_repeated_tag_counts
  by (simp add: min_notes_for_tag_moc_def)

text \<open>
  Claim C9. Header extraction normalizes the tags of every scanned document to a
  sequence: a sequence is kept, a single encoded string becomes a sequence, and every
  entry of the index has a sequence of strings as its tags. \<open>scan_notes\<close> decodes a
  string with \<open>json.loads\<close> and wraps it into a list only when decoding fails, so a
  string that is JSON but not a JSON array is replaced by the decoded value (lemma
  \<open>normalize_tags_cases\<close>). For a document with the header line \<open>tags: 2024\<close>, read
  without PyYAML, the header gives the string \<open>2024\<close>, the entry of the index has the
  integer 2024 as its tags, and the loop over the tags in \<open>build_stats\<close> raises
  \<open>TypeError\<close>.
\<close>

theorem numeric_tags_value_is_not_a_sequence:
  "extract_frontmatter None lib1 doc_tags_number
     = PDict [(u ''title'', PStr (u ''Budget'')), (u ''tags'', PStr (u ''2024''))] \<and>
   normalize_tags (PStr (u ''2024'')) = PInt 2024 \<and>
   scan_notes None lib1 [([u ''areas'', u ''finance''], u ''budget.md'', File doc_tags_number)]
     = [\<lparr>e_file = u ''budget.md'', e_path = u ''areas/finance/budget.md'',
         e_category = u ''areas'', e_subcategory = u ''finance'',
         e_title = PStr (u ''Budget''), e_tags = PInt 2024, e_summary = PStr [],
         e_processed = PStr [], e_size = 40\<rparr>] \<and>
   map stats_tags
     (scan_notes None lib1 [([u ''areas'', u ''finance''], u ''budget.md'', File doc_tags_number)])
     = [Inl TypeError]"
  by code_simp



end
